theory Spec2Isabelle
  imports Main
begin

section \<open>JavaScript values, strings and character codes\<close>

text \<open>
  A JavaScript string is modelled as a \<open>string\<close>: the list of its code units, each taken
  as one \<open>char\<close>. A \<open>char\<close> has 256 values, so the strings of this theory are the
  JavaScript strings all of whose code units are below 256; a string with a larger code unit
  has no counterpart here, and nothing is stated about it. A character code is what
  \<open>charCodeAt\<close> returns: \<open>Some n\<close> for the code unit \<open>n\<close>, and \<open>None\<close> for \<open>NaN\<close> (an
  index out of range). Every comparison with \<open>NaN\<close> is false, which is what comparing
  \<open>None\<close> with \<open>Some n\<close> gives.
\<close>

datatype js_value =
    JSUndefined
  | JSNull
  | JSBoolean bool
  | JSNumber int
  | JSString string
  | JSObject "(string \<times> js_value) list"

text \<open>
  The errors: the two that the validators raise, with the name of the argument, and the
  \<open>TypeError\<close> that JavaScript itself raises when a property of \<open>undefined\<close> is read.
\<close>

datatype error =
    InvalidArgumentType string
  | InvalidArgumentShape string
  | NativeTypeError

text \<open>The backslash, which an inner string literal cannot hold.\<close>

abbreviation BSL :: char where
  "BSL \<equiv> CHR 0x5C"

text \<open>
  Modelled from the spec: the character-code constants of \<open>constants.js\<close>, a file of the
  repository that is not among the sources; each is the code unit of the character its name
  says.
\<close>

abbreviation CHAR_UPPERCASE_A :: nat where "CHAR_UPPERCASE_A \<equiv> 65"
abbreviation CHAR_LOWERCASE_A :: nat where "CHAR_LOWERCASE_A \<equiv> 97"
abbreviation CHAR_UPPERCASE_Z :: nat where "CHAR_UPPERCASE_Z \<equiv> 90"
abbreviation CHAR_LOWERCASE_Z :: nat where "CHAR_LOWERCASE_Z \<equiv> 122"
abbreviation CHAR_DOT :: nat where "CHAR_DOT \<equiv> 46"
abbreviation CHAR_FORWARD_SLASH :: nat where "CHAR_FORWARD_SLASH \<equiv> 47"
abbreviation CHAR_BACKWARD_SLASH :: nat where "CHAR_BACKWARD_SLASH \<equiv> 92"
abbreviation CHAR_COLON :: nat where "CHAR_COLON \<equiv> 58"
abbreviation CHAR_QUESTION_MARK :: nat where "CHAR_QUESTION_MARK \<equiv> 63"

text \<open>Decimal digits of a number, for the argument names in error values.\<close>

function string_of_nat :: "nat \<Rightarrow> string" where
  "string_of_nat n =
     (if n < 10 then [char_of (48 + n)]
      else string_of_nat (n div 10) @ [char_of (48 + n mod 10)])"
  by pat_completeness auto
termination
  by (relation "measure id") auto

text \<open>The argument name \<open>paths[i]\<close> that the two \<open>resolve\<close> functions report.\<close>

definition paths_name :: "int \<Rightarrow> string" where
  "paths_name i =
     ''paths['' @ (if i < 0 then ''-'' @ string_of_nat (nat (- i)) else string_of_nat (nat i)) @ '']''"

text \<open>
  Modelled from the spec: \<open>validateString\<close> and \<open>validateObject\<close> of \<open>validators.js\<close>, a
  file of the repository that is not among the sources: assertions that a value is a string
  (a plain object), raising a typed error that carries the argument's name otherwise.
\<close>

fun validateString :: "js_value \<Rightarrow> string \<Rightarrow> error + string" where
  "validateString (JSString s) nm = Inr s"
| "validateString v nm = Inl (InvalidArgumentType nm)"

text \<open>
  \<open>a === b\<close> on two character codes: false as soon as one of them is \<open>NaN\<close>.
\<close>

definition strict_eq :: "nat option \<Rightarrow> nat option \<Rightarrow> bool" where
  "strict_eq a b = (a \<noteq> None \<and> b \<noteq> None \<and> a = b)"

definition charCodeAt :: "string \<Rightarrow> int \<Rightarrow> nat option" where
  "charCodeAt s i =
     (if 0 \<le> i \<and> i < int (length s) then Some (of_char (s ! nat i)) else None)"

text \<open>\<open>s.slice(a, b)\<close>: a negative index counts from the end, and both are clamped.\<close>

definition slice :: "string \<Rightarrow> int \<Rightarrow> int \<Rightarrow> string" where
  "slice s a b =
     (let len = int (length s);
          from = (if a < 0 then max (len + a) 0 else min a len);
          to = (if b < 0 then max (len + b) 0 else min b len)
      in take (nat (to - from)) (drop (nat from) s))"

text \<open>\<open>s.slice(a)\<close>, the end left out.\<close>

definition slice_from :: "string \<Rightarrow> int \<Rightarrow> string" where
  "slice_from s a = slice s a (int (length s))"

text \<open>\<open>s.lastIndexOf(t)\<close> and \<open>s.indexOf(t)\<close>: the last (first) position where \<open>t\<close> occurs
  in \<open>s\<close>, or \<open>-1\<close>.\<close>

definition occurs_at :: "string \<Rightarrow> string \<Rightarrow> nat \<Rightarrow> bool" where
  "occurs_at s t k = (take (length t) (drop k s) = t)"

definition lastIndexOf :: "string \<Rightarrow> string \<Rightarrow> int" where
  "lastIndexOf s t =
     (if length s < length t then - 1
      else case find (occurs_at s t) (rev [0 ..< Suc (length s - length t)]) of
             Some k \<Rightarrow> int k
           | None \<Rightarrow> - 1)"

definition indexOf :: "string \<Rightarrow> string \<Rightarrow> int" where
  "indexOf s t =
     (if length s < length t then - 1
      else case find (occurs_at s t) [0 ..< Suc (length s - length t)] of
             Some k \<Rightarrow> int k
           | None \<Rightarrow> - 1)"

text \<open>
  \<open>s.toLowerCase()\<close> on the strings of this theory, those of code units below 256: the
  letters A to Z, and the Latin-1 capitals 0xC0 to 0xDE without the multiplication sign
  0xD7, move up by 32, and every other code unit stays. On these strings the result has
  the length of the string. That is not so of every JavaScript string: the capital I with
  a dot above, of code 0x130, becomes two code units; such strings are not among the ones
  modelled.
\<close>

definition lower_char :: "char \<Rightarrow> char" where
  "lower_char c =
     (let n = (of_char c :: nat)
      in if (65 \<le> n \<and> n \<le> 90) \<or> (192 \<le> n \<and> n \<le> 222 \<and> n \<noteq> 215)
         then char_of (n + 32) else c)"

definition toLowerCase :: "string \<Rightarrow> string" where
  "toLowerCase s = map lower_char s"

text \<open>The \<open>replace\<close> call of \<open>posixCwd\<close>: every backslash becomes a forward slash.\<close>

definition replace_backslashes :: "string \<Rightarrow> string" where
  "replace_backslashes s = map (\<lambda>c. if c = BSL then CHR ''/'' else c) s"

text \<open>
  The process-wide inputs: the current working directory that \<open>process.cwd()\<close> returns, the
  environment \<open>process.env\<close>, and the platform flag read once when the module loads. The
  environment is \<open>None\<close> when \<open>process.env\<close> is \<open>undefined\<close>, as it is under the shim that
  the module installs in a browser, an object with nothing but \<open>cwd\<close>.
\<close>

record host =
  cwd :: string
  env :: "(string \<Rightarrow> string option) option"
  platformIsWin32 :: bool

section \<open>Classifiers\<close>

definition isPathSeparator :: "nat option \<Rightarrow> bool" where
  "isPathSeparator code =
     (code = Some CHAR_FORWARD_SLASH \<or> code = Some CHAR_BACKWARD_SLASH)"

definition isPosixPathSeparator :: "nat option \<Rightarrow> bool" where
  "isPosixPathSeparator code = (code = Some CHAR_FORWARD_SLASH)"

definition isWindowsDeviceRoot :: "nat option \<Rightarrow> bool" where
  "isWindowsDeviceRoot code =
     (case code of
        None \<Rightarrow> False
      | Some c \<Rightarrow>
          (c \<ge> CHAR_UPPERCASE_A \<and> c \<le> CHAR_UPPERCASE_Z) \<or>
          (c \<ge> CHAR_LOWERCASE_A \<and> c \<le> CHAR_LOWERCASE_Z))"

section \<open>normalizeString\<close>

record ns_state =
  res :: string
  lastSegmentLength :: int
  lastSlash :: int
  dots :: int

text \<open>
  One pass of the loop body at index \<open>i\<close>, once \<open>code\<close> is set. Both \<open>continue\<close>
  statements and the end of the body lead to the increment of \<open>i\<close>, so the body returns
  the state and the loop goes on.
\<close>

definition ns_last_is_dotdot :: "ns_state \<Rightarrow> bool" where
  "ns_last_is_dotdot st =
     (\<not> (int (length (res st)) < 2 \<or>
         lastSegmentLength st \<noteq> 2 \<or>
         charCodeAt (res st) (int (length (res st)) - 1) \<noteq> Some CHAR_DOT \<or>
         charCodeAt (res st) (int (length (res st)) - 2) \<noteq> Some CHAR_DOT))"

definition normalizeString_body ::
  "string \<Rightarrow> bool \<Rightarrow> string \<Rightarrow> (nat option \<Rightarrow> bool) \<Rightarrow> int \<Rightarrow> nat option \<Rightarrow> ns_state \<Rightarrow> ns_state"
where
  "normalizeString_body path allowAboveRoot separator isSep i code st =
     (if isSep code then
        (if lastSlash st = i - 1 \<or> dots st = 1 then
           st\<lparr>lastSlash := i, dots := 0\<rparr>
         else if dots st = 2 then
           (if \<not> ns_last_is_dotdot st \<and> length (res st) > 2 then
              (let lastSlashIndex = lastIndexOf (res st) separator
               in if lastSlashIndex = - 1 then
                    st\<lparr>res := [], lastSegmentLength := 0, lastSlash := i, dots := 0\<rparr>
                  else
                    (let r = slice (res st) 0 lastSlashIndex
                     in st\<lparr>res := r,
                           lastSegmentLength := int (length r) - 1 - lastIndexOf r separator,
                           lastSlash := i, dots := 0\<rparr>))
            else if \<not> ns_last_is_dotdot st \<and> length (res st) \<noteq> 0 then
              st\<lparr>res := [], lastSegmentLength := 0, lastSlash := i, dots := 0\<rparr>
            else if allowAboveRoot then
              st\<lparr>res := res st @ (if length (res st) > 0 then separator @ ''..'' else ''..''),
                 lastSegmentLength := 2, lastSlash := i, dots := 0\<rparr>
            else
              st\<lparr>lastSlash := i, dots := 0\<rparr>)
         else
           st\<lparr>res := (if length (res st) > 0
                       then res st @ separator @ slice path (lastSlash st + 1) i
                       else slice path (lastSlash st + 1) i),
              lastSegmentLength := i - lastSlash st - 1,
              lastSlash := i, dots := 0\<rparr>)
      else if code = Some CHAR_DOT \<and> dots st \<noteq> - 1 then
        st\<lparr>dots := dots st + 1\<rparr>
      else
        st\<lparr>dots := - 1\<rparr>)"

function normalizeString_loop ::
  "string \<Rightarrow> bool \<Rightarrow> string \<Rightarrow> (nat option \<Rightarrow> bool) \<Rightarrow> nat \<Rightarrow> nat option \<Rightarrow> ns_state \<Rightarrow> string"
where
  "normalizeString_loop path allowAboveRoot separator isSep i code st =
     (if i \<le> length path then
        (if i < length path then
           normalizeString_loop path allowAboveRoot separator isSep (Suc i)
             (charCodeAt path (int i))
             (normalizeString_body path allowAboveRoot separator isSep (int i)
                (charCodeAt path (int i)) st)
         else if isSep code then res st
         else
           normalizeString_loop path allowAboveRoot separator isSep (Suc i)
             (Some CHAR_FORWARD_SLASH)
             (normalizeString_body path allowAboveRoot separator isSep (int i)
                (Some CHAR_FORWARD_SLASH) st))
      else res st)"
  by pat_completeness auto
termination
  by (relation "measure (\<lambda>(path, a, s, p, i, c, st). Suc (length path) - i)") auto

declare normalizeString_loop.simps [simp del]

definition normalizeString ::
  "string \<Rightarrow> bool \<Rightarrow> string \<Rightarrow> (nat option \<Rightarrow> bool) \<Rightarrow> string"
where
  "normalizeString path allowAboveRoot separator isSep =
     normalizeString_loop path allowAboveRoot separator isSep 0 (Some 0)
       \<lparr>res = [], lastSegmentLength = 0, lastSlash = - 1, dots = 0\<rparr>"

section \<open>The POSIX engine\<close>

text \<open>
  \<open>posixCwd\<close>: on a Windows host the backslashes of the working directory become forward
  slashes and everything before the first one is cut off.
\<close>

definition posixCwd :: "host \<Rightarrow> string" where
  "posixCwd h =
     (if platformIsWin32 h then
        (let c = replace_backslashes (cwd h) in slice_from c (indexOf c ''/''))
      else cwd h)"

text \<open>
  The loop of \<open>posResolve\<close>, counting down: the argument \<open>Suc i\<close> stands for the index
  \<open>i\<close> about to be read, and \<open>0\<close> for the index \<open>-1\<close>, where the working directory is
  read. The loop condition \<open>!resolvedAbsolute\<close> is tested before each pass.
\<close>

fun posResolve_loop ::
  "host \<Rightarrow> js_value list \<Rightarrow> nat \<Rightarrow> string \<Rightarrow> bool \<Rightarrow> error + (string \<times> bool)"
where
  "posResolve_loop h args 0 resolvedPath resolvedAbsolute =
     (if resolvedAbsolute then Inr (resolvedPath, resolvedAbsolute)
      else
        (let path = posixCwd h
         in if length path = 0 then Inr (resolvedPath, resolvedAbsolute)
            else Inr (path @ ''/'' @ resolvedPath,
                      charCodeAt path 0 = Some CHAR_FORWARD_SLASH)))"
| "posResolve_loop h args (Suc i) resolvedPath resolvedAbsolute =
     (if resolvedAbsolute then Inr (resolvedPath, resolvedAbsolute)
      else
        (case validateString (args ! i) (paths_name (int i)) of
           Inl e \<Rightarrow> Inl e
         | Inr path \<Rightarrow>
             if length path = 0 then posResolve_loop h args i resolvedPath resolvedAbsolute
             else posResolve_loop h args i (path @ ''/'' @ resolvedPath)
                    (charCodeAt path 0 = Some CHAR_FORWARD_SLASH)))"

definition posResolve :: "host \<Rightarrow> js_value list \<Rightarrow> error + string" where
  "posResolve h args =
     (case posResolve_loop h args (length args) [] False of
        Inl e \<Rightarrow> Inl e
      | Inr (resolvedPath, resolvedAbsolute) \<Rightarrow>
          (let resolvedPath' =
                 normalizeString resolvedPath (\<not> resolvedAbsolute) ''/'' isPosixPathSeparator
           in if resolvedAbsolute then Inr (''/'' @ resolvedPath')
              else Inr (if length resolvedPath' > 0 then resolvedPath' else ''.'')))"

text \<open>\<open>posNormalize\<close> after its argument has passed \<open>validateString\<close>.\<close>

definition posNormalize_string :: "string \<Rightarrow> string" where
  "posNormalize_string path =
     (if length path = 0 then ''.''
      else
        (let isAbsolute = (charCodeAt path 0 = Some CHAR_FORWARD_SLASH);
             trailingSeparator =
               (charCodeAt path (int (length path) - 1) = Some CHAR_FORWARD_SLASH);
             path' = normalizeString path (\<not> isAbsolute) ''/'' isPosixPathSeparator
         in if length path' = 0 then
              (if isAbsolute then ''/'' else if trailingSeparator then ''./'' else ''.'')
            else
              (let path'' = (if trailingSeparator then path' @ ''/'' else path')
               in if isAbsolute then ''/'' @ path'' else path'')))"

definition posNormalize :: "js_value \<Rightarrow> error + string" where
  "posNormalize path =
     (case validateString path ''path'' of
        Inl e \<Rightarrow> Inl e
      | Inr p \<Rightarrow> Inr (posNormalize_string p))"

definition posIsAbsolute :: "js_value \<Rightarrow> error + bool" where
  "posIsAbsolute path =
     (case validateString path ''path'' of
        Inl e \<Rightarrow> Inl e
      | Inr p \<Rightarrow> Inr (length p > 0 \<and> charCodeAt p 0 = Some CHAR_FORWARD_SLASH))"

text \<open>
  The loop of \<open>posJoin\<close> over its arguments, first to last; \<open>joined\<close> is \<open>None\<close> while it
  is \<open>undefined\<close>.
\<close>

fun posJoin_loop :: "js_value list \<Rightarrow> string option \<Rightarrow> error + string option" where
  "posJoin_loop [] joined = Inr joined"
| "posJoin_loop (arg # args) joined =
     (case validateString arg ''path'' of
        Inl e \<Rightarrow> Inl e
      | Inr a \<Rightarrow>
          if length a > 0 then
            (case joined of
               None \<Rightarrow> posJoin_loop args (Some a)
             | Some j \<Rightarrow> posJoin_loop args (Some (j @ ''/'' @ a)))
          else posJoin_loop args joined)"

definition posJoin :: "js_value list \<Rightarrow> error + string" where
  "posJoin args =
     (if length args = 0 then Inr ''.''
      else case posJoin_loop args None of
             Inl e \<Rightarrow> Inl e
           | Inr None \<Rightarrow> Inr ''.''
           | Inr (Some joined) \<Rightarrow> Inr (posNormalize_string joined))"

text \<open>
  The comparison loop of \<open>relative\<close>, which both engines have: it returns the index \<open>i\<close>
  where it stopped and \<open>lastCommonSep\<close>. The separator's code is a parameter.
\<close>

function relative_compare ::
  "nat \<Rightarrow> string \<Rightarrow> string \<Rightarrow> int \<Rightarrow> int \<Rightarrow> int \<Rightarrow> nat \<Rightarrow> int \<Rightarrow> nat \<times> int"
where
  "relative_compare sepCode from to fromStart toStart len i lastCommonSep =
     (if int i < len then
        (let fromCode = charCodeAt from (fromStart + int i)
         in if \<not> strict_eq fromCode (charCodeAt to (toStart + int i)) then (i, lastCommonSep)
            else relative_compare sepCode from to fromStart toStart len (Suc i)
                   (if fromCode = Some sepCode then int i else lastCommonSep))
      else (i, lastCommonSep))"
  by pat_completeness auto
termination
  by (relation "measure (\<lambda>(c, f, t, fs, ts, len, i, l). nat (len - int i))") auto

declare relative_compare.simps [simp del]

text \<open>
  The loop of \<open>relative\<close> that writes one \<open>..\<close> for each segment left in \<open>from\<close>, which
  both engines have; \<open>sep\<close> is the separator as a string and \<open>sepCode\<close> its code.
\<close>

function relative_out :: "nat \<Rightarrow> string \<Rightarrow> string \<Rightarrow> int \<Rightarrow> int \<Rightarrow> string \<Rightarrow> string" where
  "relative_out sepCode sep from fromEnd i out =
     (if i \<le> fromEnd then
        relative_out sepCode sep from fromEnd (i + 1)
          (if i = fromEnd \<or> charCodeAt from i = Some sepCode
           then out @ (if length out = 0 then ''..'' else sep @ ''..'')
           else out)
      else out)"
  by pat_completeness auto
termination
  by (relation "measure (\<lambda>(c, s, f, fromEnd, i, out). nat (fromEnd + 1 - i))") auto

declare relative_out.simps [simp del]

text \<open>\<open>posRelative\<close> from the point where \<open>from\<close> and \<open>to\<close> have been resolved.\<close>

definition posRelative_resolved :: "string \<Rightarrow> string \<Rightarrow> string" where
  "posRelative_resolved from to =
     (if from = to then []
      else
        (let fromStart = 1;
             fromEnd = int (length from);
             fromLen = fromEnd - fromStart;
             toStart = 1;
             toLen = int (length to) - toStart;
             len = (if fromLen < toLen then fromLen else toLen);
             (i, lastCommonSep0) =
               relative_compare CHAR_FORWARD_SLASH from to fromStart toStart len 0 (- 1)
         in if int i = len \<and> toLen > len \<and>
               charCodeAt to (toStart + int i) = Some CHAR_FORWARD_SLASH then
              slice_from to (toStart + int i + 1)
            else if int i = len \<and> toLen > len \<and> i = 0 then
              slice_from to (toStart + int i)
            else
              (let lastCommonSep =
                     (if int i = len \<and> \<not> toLen > len \<and> fromLen > len then
                        (if charCodeAt from (fromStart + int i) = Some CHAR_FORWARD_SLASH
                         then int i
                         else if i = 0 then 0 else lastCommonSep0)
                      else lastCommonSep0);
                   out = relative_out CHAR_FORWARD_SLASH ''/'' from fromEnd
                           (fromStart + lastCommonSep + 1) []
               in out @ slice_from to (toStart + lastCommonSep))))"

definition posRelative :: "host \<Rightarrow> js_value \<Rightarrow> js_value \<Rightarrow> error + string" where
  "posRelative h from to =
     (case validateString from ''from'' of
        Inl e \<Rightarrow> Inl e
      | Inr from0 \<Rightarrow>
          (case validateString to ''to'' of
             Inl e \<Rightarrow> Inl e
           | Inr to0 \<Rightarrow>
               if from0 = to0 then Inr []
               else
                 (case posResolve h [JSString from0] of
                    Inl e \<Rightarrow> Inl e
                  | Inr from1 \<Rightarrow>
                      (case posResolve h [JSString to0] of
                         Inl e \<Rightarrow> Inl e
                       | Inr to1 \<Rightarrow> Inr (posRelative_resolved from1 to1)))))"

definition posToNamespacedPath :: "js_value \<Rightarrow> error + js_value" where
  "posToNamespacedPath path = Inr path"

text \<open>
  The loop of \<open>posDirname\<close>, counting down from the last index to 1; it returns \<open>end\<close>.
\<close>

fun posDirname_loop :: "string \<Rightarrow> nat \<Rightarrow> bool \<Rightarrow> int" where
  "posDirname_loop path 0 matchedSlash = - 1"
| "posDirname_loop path (Suc i) matchedSlash =
     (if i < 1 then - 1
      else if charCodeAt path (int i) = Some CHAR_FORWARD_SLASH then
        (if \<not> matchedSlash then int i else posDirname_loop path i matchedSlash)
      else posDirname_loop path i False)"

definition posDirname :: "js_value \<Rightarrow> error + string" where
  "posDirname path =
     (case validateString path ''path'' of
        Inl e \<Rightarrow> Inl e
      | Inr p \<Rightarrow>
          if length p = 0 then Inr ''.''
          else
            (let hasRoot = (charCodeAt p 0 = Some CHAR_FORWARD_SLASH);
                 end' = posDirname_loop p (length p) True
             in if end' = - 1 then Inr (if hasRoot then ''/'' else ''.'')
                else if hasRoot \<and> end' = 1 then Inr ''//''
                else Inr (slice p 0 end')))"

section \<open>basename, extname, format and parse: the scans from the end\<close>

record bn_state =
  bn_start :: int
  bn_end :: int
  bn_matchedSlash :: bool
  bn_extIdx :: int
  bn_firstNonSlashEnd :: int

text \<open>
  The loop of \<open>basename\<close> when a suffix is given, counting down from the last index to
  \<open>start\<close>: the argument \<open>Suc i\<close> stands for the index \<open>i\<close> about to be read. Both
  engines have it; \<open>isSep\<close> is the test each applies to \<open>code\<close>.
\<close>

fun basename_suffix_loop ::
  "(nat option \<Rightarrow> bool) \<Rightarrow> string \<Rightarrow> string \<Rightarrow> nat \<Rightarrow> bn_state \<Rightarrow> bn_state"
where
  "basename_suffix_loop isSep path suffix 0 st = st"
| "basename_suffix_loop isSep path suffix (Suc i) st =
     (if int i < bn_start st then st
      else
        (let code = charCodeAt path (int i)
         in if isSep code then
              (if \<not> bn_matchedSlash st then st\<lparr>bn_start := int i + 1\<rparr>
               else basename_suffix_loop isSep path suffix i st)
            else
              (let st1 = (if bn_firstNonSlashEnd st = - 1
                          then st\<lparr>bn_matchedSlash := False, bn_firstNonSlashEnd := int i + 1\<rparr>
                          else st);
                   st2 = (if bn_extIdx st1 \<ge> 0 then
                            (if strict_eq code (charCodeAt suffix (bn_extIdx st1)) then
                               (if bn_extIdx st1 - 1 = - 1
                                then st1\<lparr>bn_extIdx := bn_extIdx st1 - 1, bn_end := int i\<rparr>
                                else st1\<lparr>bn_extIdx := bn_extIdx st1 - 1\<rparr>)
                             else st1\<lparr>bn_extIdx := - 1, bn_end := bn_firstNonSlashEnd st1\<rparr>)
                          else st1)
               in basename_suffix_loop isSep path suffix i st2)))"

text \<open>The loop of \<open>basename\<close> without a suffix, on the same state.\<close>

fun basename_loop :: "(nat option \<Rightarrow> bool) \<Rightarrow> string \<Rightarrow> nat \<Rightarrow> bn_state \<Rightarrow> bn_state" where
  "basename_loop isSep path 0 st = st"
| "basename_loop isSep path (Suc i) st =
     (if int i < bn_start st then st
      else if isSep (charCodeAt path (int i)) then
        (if \<not> bn_matchedSlash st then st\<lparr>bn_start := int i + 1\<rparr>
         else basename_loop isSep path i st)
      else if bn_end st = - 1 then
        basename_loop isSep path i (st\<lparr>bn_matchedSlash := False, bn_end := int i + 1\<rparr>)
      else basename_loop isSep path i st)"

text \<open>
  The body of \<open>basename\<close> after validation and after \<open>start\<close> is set; \<open>suffix\<close> is
  \<open>None\<close> when it is \<open>undefined\<close>.
\<close>

definition basename_from ::
  "(nat option \<Rightarrow> bool) \<Rightarrow> int \<Rightarrow> string \<Rightarrow> string option \<Rightarrow> string"
where
  "basename_from isSep start0 path suffix =
     (let st0 = \<lparr>bn_start = start0, bn_end = - 1, bn_matchedSlash = True,
                 bn_extIdx = 0, bn_firstNonSlashEnd = - 1\<rparr>
      in case (case suffix of
                 None \<Rightarrow> None
               | Some sfx \<Rightarrow>
                   if length sfx > 0 \<and> length sfx \<le> length path then Some sfx else None) of
           Some sfx \<Rightarrow>
             if sfx = path then []
             else
               (let st = basename_suffix_loop isSep path sfx (length path)
                           (st0\<lparr>bn_extIdx := int (length sfx) - 1\<rparr>);
                    end' = (if bn_start st = bn_end st then bn_firstNonSlashEnd st
                            else if bn_end st = - 1 then int (length path)
                            else bn_end st)
                in slice path (bn_start st) end')
         | None \<Rightarrow>
             (let st = basename_loop isSep path (length path) st0
              in if bn_end st = - 1 then [] else slice path (bn_start st) (bn_end st)))"

text \<open>
  The optional \<open>suffix\<close> argument: validated unless it is \<open>undefined\<close>, before \<open>path\<close>
  is.
\<close>

definition validate_suffix :: "js_value \<Rightarrow> error + string option" where
  "validate_suffix suffix =
     (if suffix = JSUndefined then Inr None
      else case validateString suffix ''ext'' of
             Inl e \<Rightarrow> Inl e
           | Inr s \<Rightarrow> Inr (Some s))"

definition posBasename :: "js_value \<Rightarrow> js_value \<Rightarrow> error + string" where
  "posBasename path suffix =
     (case validate_suffix suffix of
        Inl e \<Rightarrow> Inl e
      | Inr sfx \<Rightarrow>
          (case validateString path ''path'' of
             Inl e \<Rightarrow> Inl e
           | Inr p \<Rightarrow> Inr (basename_from isPosixPathSeparator 0 p sfx)))"

record scan_state =
  startDot :: int
  startPart :: int
  scan_end :: int
  scan_matchedSlash :: bool
  preDotState :: int

text \<open>
  The loop that \<open>extname\<close> and \<open>parse\<close> of both engines have, counting down from the last
  index to the bound \<open>lo\<close>: the argument \<open>Suc i\<close> stands for the index \<open>i\<close> about to be
  read.
\<close>

fun ext_scan :: "(nat option \<Rightarrow> bool) \<Rightarrow> string \<Rightarrow> int \<Rightarrow> nat \<Rightarrow> scan_state \<Rightarrow> scan_state" where
  "ext_scan isSep path lo 0 st = st"
| "ext_scan isSep path lo (Suc i) st =
     (if int i < lo then st
      else
        (let code = charCodeAt path (int i)
         in if isSep code then
              (if \<not> scan_matchedSlash st then st\<lparr>startPart := int i + 1\<rparr>
               else ext_scan isSep path lo i st)
            else
              (let st1 = (if scan_end st = - 1
                          then st\<lparr>scan_matchedSlash := False, scan_end := int i + 1\<rparr>
                          else st);
                   st2 = (if code = Some CHAR_DOT then
                            (if startDot st1 = - 1 then st1\<lparr>startDot := int i\<rparr>
                             else if preDotState st1 \<noteq> 1 then st1\<lparr>preDotState := 1\<rparr>
                             else st1)
                          else if startDot st1 \<noteq> - 1 then st1\<lparr>preDotState := - 1\<rparr>
                          else st1)
               in ext_scan isSep path lo i st2)))"

text \<open>The test that the scanned component has no extension.\<close>

definition no_extension :: "scan_state \<Rightarrow> bool" where
  "no_extension st =
     (startDot st = - 1 \<or>
      preDotState st = 0 \<or>
      (preDotState st = 1 \<and> startDot st = scan_end st - 1 \<and> startDot st = startPart st + 1))"

definition posExtname :: "js_value \<Rightarrow> error + string" where
  "posExtname path =
     (case validateString path ''path'' of
        Inl e \<Rightarrow> Inl e
      | Inr p \<Rightarrow>
          (let st = ext_scan isPosixPathSeparator p 0 (length p)
                      \<lparr>startDot = - 1, startPart = 0, scan_end = - 1,
                       scan_matchedSlash = True, preDotState = 0\<rparr>
           in if startDot st = - 1 \<or> scan_end st = - 1 \<or> preDotState st = 0 \<or>
                 (preDotState st = 1 \<and> startDot st = scan_end st - 1 \<and>
                  startDot st = startPart st + 1)
              then Inr []
              else Inr (slice p (startDot st) (scan_end st))))"

text \<open>
  The argument of \<open>format\<close>: an object whose five properties are each a string or
  \<open>undefined\<close> (\<open>None\<close>), or a value that is not an object.
\<close>

record pathObject =
  po_dir :: "string option"
  po_root :: "string option"
  po_base :: "string option"
  po_name :: "string option"
  po_ext :: "string option"

datatype format_argument = FormatObject pathObject | FormatOther js_value

text \<open>\<open>a || b\<close> on values that are a string or \<open>undefined\<close>: \<open>a\<close> when it is a string
  that is not empty.\<close>

definition js_or :: "string option \<Rightarrow> string option \<Rightarrow> string option" where
  "js_or a b = (case a of Some (c # cs) \<Rightarrow> a | _ \<Rightarrow> b)"

definition truthy :: "string option \<Rightarrow> bool" where
  "truthy a = (case a of Some (c # cs) \<Rightarrow> True | _ \<Rightarrow> False)"

definition formatExt :: "string option \<Rightarrow> string" where
  "formatExt e =
     (case e of
        Some (c # cs) \<Rightarrow> (if c = CHR ''.'' then [] else ''.'') @ (c # cs)
      | _ \<Rightarrow> [])"

definition format' :: "string \<Rightarrow> format_argument \<Rightarrow> error + string" where
  "format' sep arg =
     (case arg of
        FormatOther v \<Rightarrow> Inl (InvalidArgumentShape ''pathObject'')
      | FormatObject po \<Rightarrow>
          (let d = js_or (po_dir po) (po_root po);
               b = (if truthy (po_base po) then the (po_base po)
                    else (if truthy (po_name po) then the (po_name po) else [])
                         @ formatExt (po_ext po))
           in if \<not> truthy d then Inr b
              else if d = po_root po then Inr (the d @ b)
              else Inr (the d @ sep @ b)))"

definition posFormat :: "format_argument \<Rightarrow> error + string" where
  "posFormat = format' ''/''"

record parsed =
  root :: string
  dir :: string
  base :: string
  ext :: string
  name :: string

text \<open>The object that \<open>parse\<close> returns, as an argument of \<open>format\<close>.\<close>

definition parsed_object :: "parsed \<Rightarrow> format_argument" where
  "parsed_object r =
     FormatObject \<lparr>po_dir = Some (dir r), po_root = Some (root r), po_base = Some (base r),
                   po_name = Some (name r), po_ext = Some (ext r)\<rparr>"

definition posParse_string :: "string \<Rightarrow> parsed" where
  "posParse_string path =
     (let ret = \<lparr>root = [], dir = [], base = [], ext = [], name = []\<rparr>
      in if length path = 0 then ret
         else
           (let isAbsolute = (charCodeAt path 0 = Some CHAR_FORWARD_SLASH);
                ret1 = (if isAbsolute then ret\<lparr>root := ''/''\<rparr> else ret);
                start = (if isAbsolute then 1 else 0);
                st = ext_scan isPosixPathSeparator path start (length path)
                       \<lparr>startDot = - 1, startPart = 0, scan_end = - 1,
                        scan_matchedSlash = True, preDotState = 0\<rparr>;
                ret2 =
                  (if scan_end st \<noteq> - 1 then
                     (let start' = (if startPart st = 0 \<and> isAbsolute then 1 else startPart st)
                      in if no_extension st then
                           ret1\<lparr>base := slice path start' (scan_end st),
                                name := slice path start' (scan_end st)\<rparr>
                         else
                           ret1\<lparr>name := slice path start' (startDot st),
                                base := slice path start' (scan_end st),
                                ext := slice path (startDot st) (scan_end st)\<rparr>)
                   else ret1)
            in if startPart st > 0 then ret2\<lparr>dir := slice path 0 (startPart st - 1)\<rparr>
               else if isAbsolute then ret2\<lparr>dir := ''/''\<rparr>
               else ret2))"

definition posParse :: "js_value \<Rightarrow> error + parsed" where
  "posParse path =
     (case validateString path ''path'' of
        Inl e \<Rightarrow> Inl e
      | Inr p \<Rightarrow> Inr (posParse_string p))"

section \<open>The Windows engine\<close>

text \<open>
  The two inner loops of the UNC root matching: \<open>j\<close> moves over characters that are not
  separators (that are separators) and stops at the end of the string.
\<close>

function skip_non_separators :: "string \<Rightarrow> nat \<Rightarrow> nat" where
  "skip_non_separators path j =
     (if j < length path \<and> \<not> isPathSeparator (charCodeAt path (int j))
      then skip_non_separators path (Suc j) else j)"
  by pat_completeness auto
termination
  by (relation "measure (\<lambda>(path, j). length path - j)") auto

function skip_separators :: "string \<Rightarrow> nat \<Rightarrow> nat" where
  "skip_separators path j =
     (if j < length path \<and> isPathSeparator (charCodeAt path (int j))
      then skip_separators path (Suc j) else j)"
  by pat_completeness auto
termination
  by (relation "measure (\<lambda>(path, j). length path - j)") auto

declare skip_non_separators.simps [simp del]
declare skip_separators.simps [simp del]

text \<open>
  The root matching of \<open>winResolve\<close> for one path: \<open>(rootEnd, device, isAbsolute)\<close>.
\<close>

definition winResolve_root :: "string \<Rightarrow> nat \<times> string \<times> bool" where
  "winResolve_root path =
     (let len = length path; code = charCodeAt path 0
      in if len = 1 then
           (if isPathSeparator code then (1, [], True) else (0, [], False))
         else if isPathSeparator code then
           (if isPathSeparator (charCodeAt path 1) then
              (let j = skip_non_separators path 2
               in if j < len \<and> j \<noteq> 2 then
                    (let firstPart = slice path 2 (int j);
                         j2 = skip_separators path j
                     in if j2 < len \<and> j2 \<noteq> j then
                          (let j3 = skip_non_separators path j2
                           in if j3 = len \<or> j3 \<noteq> j2 then
                                (j3,
                                 [BSL, BSL] @ firstPart @ [BSL] @ slice path (int j2) (int j3),
                                 True)
                              else (0, [], True))
                        else (0, [], True))
                  else (0, [], True))
            else (1, [], True))
         else if isWindowsDeviceRoot code \<and> charCodeAt path 1 = Some CHAR_COLON then
           (if len > 2 \<and> isPathSeparator (charCodeAt path 2)
            then (3, slice path 0 2, True)
            else (2, slice path 0 2, False))
         else (0, [], False))"

record wr_state =
  resolvedDevice :: string
  resolvedTail :: string
  resolvedAbsolute :: bool

text \<open>
  One pass of the loop of \<open>winResolve\<close> from the root matching on, for the path that the
  pass has read; the flag returned is true when the pass ends in \<open>break\<close>.
\<close>

definition winResolve_step :: "string \<Rightarrow> wr_state \<Rightarrow> wr_state \<times> bool" where
  "winResolve_step path st =
     (case winResolve_root path of
        (rootEnd, device, isAbsolute) \<Rightarrow>
          if length device > 0 \<and> length (resolvedDevice st) > 0 \<and>
             toLowerCase device \<noteq> toLowerCase (resolvedDevice st) then (st, False)
          else
            (let st1 = (if length device > 0 \<and> \<not> length (resolvedDevice st) > 0
                        then st\<lparr>resolvedDevice := device\<rparr> else st)
             in if resolvedAbsolute st1 then (st1, length (resolvedDevice st1) > 0)
                else
                  (let st2 = st1\<lparr>resolvedTail :=
                                    slice_from path (int rootEnd) @ [BSL] @ resolvedTail st1,
                                  resolvedAbsolute := isAbsolute\<rparr>
                   in (st2, isAbsolute \<and> length (resolvedDevice st2) > 0))))"

text \<open>
  The path read at index \<open>-1\<close>: the working directory, or the one of the resolved drive,
  looked up in the environment under the drive's name after an equals sign. The lookup is
  \<open>process?.env[...]\<close>: with \<open>process.env\<close> undefined it raises a \<open>TypeError\<close>.
\<close>

definition winResolve_cwd :: "host \<Rightarrow> string \<Rightarrow> error + string" where
  "winResolve_cwd h dev =
     (if length dev = 0 then Inr (cwd h)
      else
        (case env h of
           None \<Rightarrow> Inl NativeTypeError
         | Some vars \<Rightarrow>
             (let path = (case vars (''='' @ dev) of
                            Some (c # cs) \<Rightarrow> c # cs
                          | _ \<Rightarrow> cwd h)
              in if toLowerCase (slice path 0 2) \<noteq> toLowerCase dev \<and>
                    charCodeAt path 2 = Some CHAR_BACKWARD_SLASH
                 then Inr (dev @ [BSL]) else Inr path)))"

text \<open>
  The loop of \<open>winResolve\<close>, counting down: the argument \<open>Suc i\<close> stands for the index
  \<open>i\<close> about to be read, and \<open>0\<close> for the index \<open>-1\<close>.
\<close>

fun winResolve_loop :: "host \<Rightarrow> js_value list \<Rightarrow> nat \<Rightarrow> wr_state \<Rightarrow> error + wr_state" where
  "winResolve_loop h args 0 st =
     (case winResolve_cwd h (resolvedDevice st) of
        Inl e \<Rightarrow> Inl e
      | Inr path \<Rightarrow> Inr (fst (winResolve_step path st)))"
| "winResolve_loop h args (Suc i) st =
     (case validateString (args ! i) (paths_name (int i)) of
        Inl e \<Rightarrow> Inl e
      | Inr path \<Rightarrow>
          if length path = 0 then winResolve_loop h args i st
          else
            (case winResolve_step path st of
               (st', brk) \<Rightarrow> if brk then Inr st' else winResolve_loop h args i st'))"

definition winResolve :: "host \<Rightarrow> js_value list \<Rightarrow> error + string" where
  "winResolve h args =
     (case winResolve_loop h args (length args)
             \<lparr>resolvedDevice = [], resolvedTail = [], resolvedAbsolute = False\<rparr> of
        Inl e \<Rightarrow> Inl e
      | Inr st \<Rightarrow>
          (let tail = normalizeString (resolvedTail st) (\<not> resolvedAbsolute st) [BSL]
                        isPathSeparator
           in if resolvedAbsolute st then Inr (resolvedDevice st @ [BSL] @ tail)
              else if length (resolvedDevice st @ tail) > 0 then Inr (resolvedDevice st @ tail)
              else Inr ''.''))"

text \<open>
  The root matching of \<open>winNormalize\<close> for a path of two characters or more: \<open>Inl r\<close>
  when the function returns \<open>r\<close> at once, else \<open>Inr (rootEnd, device, isAbsolute)\<close>, the
  device \<open>None\<close> while it is \<open>undefined\<close>.
\<close>

definition winNormalize_root :: "string \<Rightarrow> string + (nat \<times> string option \<times> bool)" where
  "winNormalize_root path =
     (let len = length path; code = charCodeAt path 0
      in if isPathSeparator code then
           (if isPathSeparator (charCodeAt path 1) then
              (let j = skip_non_separators path 2
               in if j < len \<and> j \<noteq> 2 then
                    (let firstPart = slice path 2 (int j);
                         j2 = skip_separators path j
                     in if j2 < len \<and> j2 \<noteq> j then
                          (let j3 = skip_non_separators path j2
                           in if j3 = len then
                                Inl ([BSL, BSL] @ firstPart @ [BSL] @ slice_from path (int j2)
                                     @ [BSL])
                              else if j3 \<noteq> j2 then
                                Inr (j3,
                                     Some ([BSL, BSL] @ firstPart @ [BSL]
                                           @ slice path (int j2) (int j3)),
                                     True)
                              else Inr (0, None, True))
                        else Inr (0, None, True))
                  else Inr (0, None, True))
            else Inr (1, None, True))
         else if isWindowsDeviceRoot code \<and> charCodeAt path 1 = Some CHAR_COLON then
           (if len > 2 \<and> isPathSeparator (charCodeAt path 2)
            then Inr (3, Some (slice path 0 2), True)
            else Inr (2, Some (slice path 0 2), False))
         else Inr (0, None, False))"

definition winNormalize_string :: "string \<Rightarrow> string" where
  "winNormalize_string path =
     (let len = length path
      in if len = 0 then ''.''
         else if len = 1 then
           (if isPosixPathSeparator (charCodeAt path 0) then [BSL] else path)
         else
           (case winNormalize_root path of
              Inl r \<Rightarrow> r
            | Inr (rootEnd, device, isAbsolute) \<Rightarrow>
                (let tail0 = (if rootEnd < len
                              then normalizeString (slice_from path (int rootEnd))
                                     (\<not> isAbsolute) [BSL] isPathSeparator
                              else []);
                     tail1 = (if length tail0 = 0 \<and> \<not> isAbsolute then ''.'' else tail0);
                     tail = (if length tail1 > 0 \<and>
                                isPathSeparator (charCodeAt path (int len - 1))
                             then tail1 @ [BSL] else tail1)
                 in case device of
                      None \<Rightarrow> if isAbsolute then [BSL] @ tail else tail
                    | Some d \<Rightarrow> if isAbsolute then d @ [BSL] @ tail else d @ tail)))"

definition winNormalize :: "js_value \<Rightarrow> error + string" where
  "winNormalize path =
     (case validateString path ''path'' of
        Inl e \<Rightarrow> Inl e
      | Inr p \<Rightarrow> Inr (winNormalize_string p))"

definition winIsAbsolute :: "js_value \<Rightarrow> error + bool" where
  "winIsAbsolute path =
     (case validateString path ''path'' of
        Inl e \<Rightarrow> Inl e
      | Inr p \<Rightarrow>
          (let len = length p
           in if len = 0 then Inr False
              else
                (let code = charCodeAt p 0
                 in Inr (isPathSeparator code \<or>
                         (len > 2 \<and> isWindowsDeviceRoot code \<and>
                          charCodeAt p 1 = Some CHAR_COLON \<and>
                          isPathSeparator (charCodeAt p 2))))))"

text \<open>
  The loop of \<open>winJoin\<close> over its arguments, first to last: \<open>(joined, firstPart)\<close>,
  \<open>None\<close> while both are \<open>undefined\<close>.
\<close>

fun winJoin_loop ::
  "js_value list \<Rightarrow> (string \<times> string) option \<Rightarrow> error + (string \<times> string) option"
where
  "winJoin_loop [] joined = Inr joined"
| "winJoin_loop (arg # args) joined =
     (case validateString arg ''path'' of
        Inl e \<Rightarrow> Inl e
      | Inr a \<Rightarrow>
          if length a > 0 then
            (case joined of
               None \<Rightarrow> winJoin_loop args (Some (a, a))
             | Some (j, firstPart) \<Rightarrow> winJoin_loop args (Some (j @ [BSL] @ a, firstPart)))
          else winJoin_loop args joined)"

text \<open>What \<open>winJoin\<close> does with \<open>joined\<close> and \<open>firstPart\<close> before it normalizes.\<close>

definition winJoin_replace :: "string \<Rightarrow> string \<Rightarrow> string" where
  "winJoin_replace joined firstPart =
     (let firstLen = length firstPart;
          s0 = isPathSeparator (charCodeAt firstPart 0);
          s1 = (s0 \<and> firstLen > 1 \<and> isPathSeparator (charCodeAt firstPart 1));
          s2 = (s1 \<and> firstLen > 2 \<and> isPathSeparator (charCodeAt firstPart 2));
          slashCount = (if s2 then 3 else if s1 then 2 else if s0 then 1 else 0);
          needsReplace = (\<not> (s1 \<and> firstLen > 2 \<and> \<not> isPathSeparator (charCodeAt firstPart 2)))
      in if needsReplace then
           (let slashCount' = skip_separators joined slashCount
            in if slashCount' \<ge> 2 then [BSL] @ slice_from joined (int slashCount')
               else joined)
         else joined)"

definition winJoin :: "js_value list \<Rightarrow> error + string" where
  "winJoin args =
     (if length args = 0 then Inr ''.''
      else case winJoin_loop args None of
             Inl e \<Rightarrow> Inl e
           | Inr None \<Rightarrow> Inr ''.''
           | Inr (Some (joined, firstPart)) \<Rightarrow>
               Inr (winNormalize_string (winJoin_replace joined firstPart)))"

text \<open>The two trimming loops of \<open>winRelative\<close>.\<close>

function skip_backslashes :: "string \<Rightarrow> nat \<Rightarrow> nat" where
  "skip_backslashes s k =
     (if k < length s \<and> charCodeAt s (int k) = Some CHAR_BACKWARD_SLASH
      then skip_backslashes s (Suc k) else k)"
  by pat_completeness auto
termination
  by (relation "measure (\<lambda>(s, k). length s - k)") auto

fun trim_backslashes :: "string \<Rightarrow> int \<Rightarrow> nat \<Rightarrow> nat" where
  "trim_backslashes s start 0 = 0"
| "trim_backslashes s start (Suc e) =
     (if int e > start \<and> charCodeAt s (int e) = Some CHAR_BACKWARD_SLASH
      then trim_backslashes s start e else Suc e)"

declare skip_backslashes.simps [simp del]

text \<open>
  \<open>winRelative\<close> from the point where \<open>from\<close> and \<open>to\<close> have been resolved to \<open>fromOrig\<close>
  and \<open>toOrig\<close>.
\<close>

definition winRelative_resolved :: "string \<Rightarrow> string \<Rightarrow> string" where
  "winRelative_resolved fromOrig toOrig =
     (if fromOrig = toOrig then []
      else
        (let from = toLowerCase fromOrig; to = toLowerCase toOrig
         in if from = to then []
            else
              (let fromStart = int (skip_backslashes from 0);
                   fromEnd = int (trim_backslashes from fromStart (length from));
                   fromLen = fromEnd - fromStart;
                   toStart = int (skip_backslashes to 0);
                   toEnd = int (trim_backslashes to toStart (length to));
                   toLen = toEnd - toStart;
                   len = (if fromLen < toLen then fromLen else toLen);
                   (i, lastCommonSep0) =
                     relative_compare CHAR_BACKWARD_SLASH from to fromStart toStart len 0 (- 1)
               in if int i \<noteq> len \<and> lastCommonSep0 = - 1 then toOrig
                  else if int i = len \<and> toLen > len \<and>
                          charCodeAt to (toStart + int i) = Some CHAR_BACKWARD_SLASH then
                    slice_from toOrig (toStart + int i + 1)
                  else if int i = len \<and> toLen > len \<and> i = 2 then
                    slice_from toOrig (toStart + int i)
                  else
                    (let lastCommonSep1 =
                           (if int i = len \<and> fromLen > len then
                              (if charCodeAt from (fromStart + int i) = Some CHAR_BACKWARD_SLASH
                               then int i
                               else if i = 2 then 3 else lastCommonSep0)
                            else lastCommonSep0);
                         lastCommonSep =
                           (if int i = len \<and> lastCommonSep1 = - 1 then 0 else lastCommonSep1);
                         out = relative_out CHAR_BACKWARD_SLASH [BSL] from fromEnd
                                 (fromStart + lastCommonSep + 1) [];
                         toStart' = toStart + lastCommonSep
                     in if length out > 0 then out @ slice toOrig toStart' toEnd
                        else if charCodeAt toOrig toStart' = Some CHAR_BACKWARD_SLASH
                        then slice toOrig (toStart' + 1) toEnd
                        else slice toOrig toStart' toEnd))))"

definition winRelative :: "host \<Rightarrow> js_value \<Rightarrow> js_value \<Rightarrow> error + string" where
  "winRelative h from to =
     (case validateString from ''from'' of
        Inl e \<Rightarrow> Inl e
      | Inr from0 \<Rightarrow>
          (case validateString to ''to'' of
             Inl e \<Rightarrow> Inl e
           | Inr to0 \<Rightarrow>
               if from0 = to0 then Inr []
               else
                 (case winResolve h [JSString from0] of
                    Inl e \<Rightarrow> Inl e
                  | Inr fromOrig \<Rightarrow>
                      (case winResolve h [JSString to0] of
                         Inl e \<Rightarrow> Inl e
                       | Inr toOrig \<Rightarrow> Inr (winRelative_resolved fromOrig toOrig)))))"

definition winToNamespacedPath :: "host \<Rightarrow> js_value \<Rightarrow> error + js_value" where
  "winToNamespacedPath h path =
     (case path of
        JSString p \<Rightarrow>
          if length p = 0 then Inr path
          else
            (case winResolve h [JSString p] of
               Inl e \<Rightarrow> Inl e
             | Inr resolvedPath \<Rightarrow>
                 if length resolvedPath \<le> 2 then Inr path
                 else if charCodeAt resolvedPath 0 = Some CHAR_BACKWARD_SLASH then
                   (if charCodeAt resolvedPath 1 = Some CHAR_BACKWARD_SLASH \<and>
                       charCodeAt resolvedPath 2 \<noteq> Some CHAR_QUESTION_MARK \<and>
                       charCodeAt resolvedPath 2 \<noteq> Some CHAR_DOT
                    then Inr (JSString ([BSL, BSL] @ ''?'' @ [BSL] @ ''UNC'' @ [BSL]
                                        @ slice_from resolvedPath 2))
                    else Inr path)
                 else if isWindowsDeviceRoot (charCodeAt resolvedPath 0) \<and>
                         charCodeAt resolvedPath 1 = Some CHAR_COLON \<and>
                         charCodeAt resolvedPath 2 = Some CHAR_BACKWARD_SLASH
                 then Inr (JSString ([BSL, BSL] @ ''?'' @ [BSL] @ resolvedPath))
                 else Inr path)
      | _ \<Rightarrow> Inr path)"

text \<open>
  The root matching of \<open>winDirname\<close> for a path of two characters or more: \<open>None\<close> when
  the function returns \<open>path\<close> at once (a UNC root only), else \<open>Some rootEnd\<close>;
  \<open>offset\<close> is \<open>rootEnd\<close>, or \<open>0\<close> when \<open>rootEnd\<close> is \<open>-1\<close>.
\<close>

definition winDirname_root :: "string \<Rightarrow> int option" where
  "winDirname_root path =
     (let len = length path; code = charCodeAt path 0
      in if isPathSeparator code then
           (if isPathSeparator (charCodeAt path 1) then
              (let j = skip_non_separators path 2
               in if j < len \<and> j \<noteq> 2 then
                    (let j2 = skip_separators path j
                     in if j2 < len \<and> j2 \<noteq> j then
                          (let j3 = skip_non_separators path j2
                           in if j3 = len then None
                              else if j3 \<noteq> j2 then Some (int j3 + 1)
                              else Some 1)
                        else Some 1)
                  else Some 1)
            else Some 1)
         else if isWindowsDeviceRoot code \<and> charCodeAt path 1 = Some CHAR_COLON then
           Some (if len > 2 \<and> isPathSeparator (charCodeAt path 2) then 3 else 2)
         else Some (- 1))"

text \<open>
  The loop of \<open>winDirname\<close>, counting down from the last index to \<open>offset\<close>; it returns
  \<open>end\<close>.
\<close>

fun winDirname_loop :: "string \<Rightarrow> int \<Rightarrow> nat \<Rightarrow> bool \<Rightarrow> int" where
  "winDirname_loop path offset 0 matchedSlash = - 1"
| "winDirname_loop path offset (Suc i) matchedSlash =
     (if int i < offset then - 1
      else if isPathSeparator (charCodeAt path (int i)) then
        (if \<not> matchedSlash then int i else winDirname_loop path offset i matchedSlash)
      else winDirname_loop path offset i False)"

definition winDirname :: "js_value \<Rightarrow> error + string" where
  "winDirname path =
     (case validateString path ''path'' of
        Inl e \<Rightarrow> Inl e
      | Inr p \<Rightarrow>
          (let len = length p
           in if len = 0 then Inr ''.''
              else if len = 1 then
                (if isPathSeparator (charCodeAt p 0) then Inr p else Inr ''.'')
              else
                (case winDirname_root p of
                   None \<Rightarrow> Inr p
                 | Some rootEnd \<Rightarrow>
                     (let offset = (if rootEnd = - 1 then 0 else rootEnd);
                          end0 = winDirname_loop p offset len True
                      in if end0 = - 1 then
                           (if rootEnd = - 1 then Inr ''.'' else Inr (slice p 0 rootEnd))
                         else Inr (slice p 0 end0)))))"

text \<open>The test for a drive letter prefix that \<open>winBasename\<close> and \<open>winExtname\<close> make.\<close>

definition has_drive_prefix :: "string \<Rightarrow> bool" where
  "has_drive_prefix path =
     (length path \<ge> 2 \<and>
      isWindowsDeviceRoot (charCodeAt path 0) \<and>
      charCodeAt path 1 = Some CHAR_COLON)"

definition winBasename :: "js_value \<Rightarrow> js_value \<Rightarrow> error + string" where
  "winBasename path suffix =
     (case validate_suffix suffix of
        Inl e \<Rightarrow> Inl e
      | Inr sfx \<Rightarrow>
          (case validateString path ''path'' of
             Inl e \<Rightarrow> Inl e
           | Inr p \<Rightarrow>
               Inr (basename_from isPathSeparator (if has_drive_prefix p then 2 else 0) p sfx)))"

definition winExtname :: "js_value \<Rightarrow> error + string" where
  "winExtname path =
     (case validateString path ''path'' of
        Inl e \<Rightarrow> Inl e
      | Inr p \<Rightarrow>
          (let start = (if has_drive_prefix p then 2 else 0);
               st = ext_scan isPathSeparator p start (length p)
                      \<lparr>startDot = - 1, startPart = start, scan_end = - 1,
                       scan_matchedSlash = True, preDotState = 0\<rparr>
           in if startDot st = - 1 \<or> scan_end st = - 1 \<or> preDotState st = 0 \<or>
                 (preDotState st = 1 \<and> startDot st = scan_end st - 1 \<and>
                  startDot st = startPart st + 1)
              then Inr []
              else Inr (slice p (startDot st) (scan_end st))))"

definition winFormat :: "format_argument \<Rightarrow> error + string" where
  "winFormat = format' [BSL]"

text \<open>
  The root matching of \<open>winParse\<close> for a path of two characters or more: \<open>None\<close> when
  the function returns at once with \<open>root\<close> and \<open>dir\<close> set to \<open>path\<close> (a drive root
  only), else \<open>Some rootEnd\<close>.
\<close>

definition winParse_root :: "string \<Rightarrow> nat option" where
  "winParse_root path =
     (let len = length path; code = charCodeAt path 0
      in if isPathSeparator code then
           (if isPathSeparator (charCodeAt path 1) then
              (let j = skip_non_separators path 2
               in if j < len \<and> j \<noteq> 2 then
                    (let j2 = skip_separators path j
                     in if j2 < len \<and> j2 \<noteq> j then
                          (let j3 = skip_non_separators path j2
                           in if j3 = len then Some j3
                              else if j3 \<noteq> j2 then Some (j3 + 1)
                              else Some 1)
                        else Some 1)
                  else Some 1)
            else Some 1)
         else if isWindowsDeviceRoot code \<and> charCodeAt path 1 = Some CHAR_COLON then
           (if len \<le> 2 then None
            else if isPathSeparator (charCodeAt path 2) then
              (if len = 3 then None else Some 3)
            else Some 2)
         else Some 0)"

definition winParse_string :: "string \<Rightarrow> parsed" where
  "winParse_string path =
     (let ret = \<lparr>root = [], dir = [], base = [], ext = [], name = []\<rparr>;
          len = length path
      in if len = 0 then ret
         else if len = 1 then
           (if isPathSeparator (charCodeAt path 0) then ret\<lparr>root := path, dir := path\<rparr>
            else ret\<lparr>base := path, name := path\<rparr>)
         else
           (case winParse_root path of
              None \<Rightarrow> ret\<lparr>root := path, dir := path\<rparr>
            | Some rootEnd \<Rightarrow>
                (let ret1 = (if rootEnd > 0 then ret\<lparr>root := slice path 0 (int rootEnd)\<rparr>
                             else ret);
                     st = ext_scan isPathSeparator path (int rootEnd) (length path)
                            \<lparr>startDot = - 1, startPart = int rootEnd, scan_end = - 1,
                             scan_matchedSlash = True, preDotState = 0\<rparr>;
                     ret2 =
                       (if scan_end st \<noteq> - 1 then
                          (if no_extension st then
                             ret1\<lparr>base := slice path (startPart st) (scan_end st),
                                  name := slice path (startPart st) (scan_end st)\<rparr>
                           else
                             ret1\<lparr>name := slice path (startPart st) (startDot st),
                                  base := slice path (startPart st) (scan_end st),
                                  ext := slice path (startDot st) (scan_end st)\<rparr>)
                        else ret1)
                 in if startPart st > 0 \<and> startPart st \<noteq> int rootEnd
                    then ret2\<lparr>dir := slice path 0 (startPart st - 1)\<rparr>
                    else ret2\<lparr>dir := root ret2\<rparr>)))"

definition winParse :: "js_value \<Rightarrow> error + parsed" where
  "winParse path =
     (case validateString path ''path'' of
        Inl e \<Rightarrow> Inl e
      | Inr p \<Rightarrow> Inr (winParse_string p))"

section \<open>Specification-level definitions and sample hosts\<close>

text \<open>
  Three hosts for the closed examples: a POSIX one, a Windows one, and a browser, where the
  working directory is \<open>/\<close> and there is no environment.
\<close>

definition posix_host :: host where
  "posix_host = \<lparr>cwd = ''/home/user'', env = Some (\<lambda>k. None), platformIsWin32 = False\<rparr>"

definition windows_host :: host where
  "windows_host =
     \<lparr>cwd = ''C:'' @ [BSL] @ ''work'', env = Some (\<lambda>k. None), platformIsWin32 = True\<rparr>"

definition browser_host :: host where
  "browser_host = \<lparr>cwd = ''/'', env = None, platformIsWin32 = False\<rparr>"

text \<open>
  POSIX \<open>resolve\<close> as the specification words it: the paths are walked from the last to
  the first and then the working directory, each one that is not empty is put in front of
  the accumulator, and the walk stops at the first absolute one.
\<close>

fun resolve_walk :: "string list \<Rightarrow> string \<Rightarrow> string \<times> bool" where
  "resolve_walk [] acc = (acc, False)"
| "resolve_walk (p # ps) acc =
     (if p = [] then resolve_walk ps acc
      else if hd p = CHR ''/'' then (p @ ''/'' @ acc, True)
      else resolve_walk ps (p @ ''/'' @ acc))"

definition posResolve_spec :: "host \<Rightarrow> string list \<Rightarrow> string" where
  "posResolve_spec h paths =
     (case resolve_walk (rev paths @ [posixCwd h]) [] of
        (acc, foundAbsolute) \<Rightarrow>
          (let tail = normalizeString acc (\<not> foundAbsolute) ''/'' isPosixPathSeparator
           in if foundAbsolute then ''/'' @ tail
              else if tail = [] then ''.'' else tail))"

text \<open>
  The device and the absolute flag that the root matching of \<open>winResolve\<close> finds in a
  path, and the test for an absolute path that \<open>posResolve\<close> makes.
\<close>

definition win_device :: "string \<Rightarrow> string" where
  "win_device path = fst (snd (winResolve_root path))"

definition win_absolute :: "string \<Rightarrow> bool" where
  "win_absolute path = snd (snd (winResolve_root path))"

definition pos_absolute :: "string \<Rightarrow> bool" where
  "pos_absolute p = (charCodeAt p 0 = Some CHAR_FORWARD_SLASH)"

text \<open>
  The invariant of the scan of \<open>extname\<close> and \<open>parse\<close> before the index \<open>k - 1\<close> is
  read, and what holds of its result.
\<close>

definition scan_inv :: "nat \<Rightarrow> int \<Rightarrow> nat \<Rightarrow> scan_state \<Rightarrow> bool" where
  "scan_inv len lo k st =
     ((scan_end st = - 1 \<or> (int k < scan_end st \<and> scan_end st \<le> int len)) \<and>
      (startDot st = - 1 \<or>
         (int k \<le> startDot st \<and> lo \<le> startDot st \<and> startDot st < scan_end st)) \<and>
      startPart st \<le> lo)"

definition scan_post :: "nat \<Rightarrow> int \<Rightarrow> scan_state \<Rightarrow> bool" where
  "scan_post len lo st =
     ((scan_end st = - 1 \<or> scan_end st \<le> int len) \<and>
      (startDot st = - 1 \<or>
         (startPart st \<le> startDot st \<and> lo \<le> startDot st \<and> startDot st < scan_end st)))"

text \<open>The invariant of the data model: \<open>base\<close> is \<open>name\<close> followed by \<open>ext\<close>.\<close>

definition base_name_ext :: "parsed \<Rightarrow> bool" where
  "base_name_ext r = (if ext r = [] then base r = name r else base r = name r @ ext r)"

text \<open>
  \<open>normalizeString\<close> as the specification words it. The path is cut into segments at
  the characters the classifier accepts; the segments are taken one after the other: an
  empty one (a redundant separator) and \<open>.\<close> are dropped, \<open>..\<close> removes the segment
  before it when there is one that is not itself a kept \<open>..\<close>, and is otherwise kept when
  \<open>allowAboveRoot\<close> holds and dropped when not; any other segment is kept. The segments
  kept are joined with the separator.
\<close>

fun join :: "string \<Rightarrow> string list \<Rightarrow> string" where
  "join sep [] = []"
| "join sep [x] = x"
| "join sep (x # y # ys) = x @ sep @ join sep (y # ys)"

fun segments_from :: "(char \<Rightarrow> bool) \<Rightarrow> string \<Rightarrow> string \<Rightarrow> string list" where
  "segments_from sepc cur [] = [cur]"
| "segments_from sepc cur (c # cs) =
     (if sepc c then cur # segments_from sepc [] cs else segments_from sepc (cur @ [c]) cs)"

definition segments :: "(char \<Rightarrow> bool) \<Rightarrow> string \<Rightarrow> string list" where
  "segments sepc s = segments_from sepc [] s"

definition resolve_segment :: "bool \<Rightarrow> string list \<Rightarrow> string \<Rightarrow> string list" where
  "resolve_segment allowAboveRoot stack seg =
     (if seg = [] \<or> seg = ''.'' then stack
      else if seg = ''..'' then
        (if stack \<noteq> [] \<and> last stack \<noteq> ''..'' then butlast stack
         else if allowAboveRoot then stack @ [''..'']
         else stack)
      else stack @ [seg])"

definition char_is_separator :: "(nat option \<Rightarrow> bool) \<Rightarrow> char \<Rightarrow> bool" where
  "char_is_separator isSep c = isSep (Some (of_char c))"

definition normalizeString_spec ::
  "string \<Rightarrow> bool \<Rightarrow> string \<Rightarrow> (nat option \<Rightarrow> bool) \<Rightarrow> string"
where
  "normalizeString_spec path allowAboveRoot separator isSep =
     join separator
       (foldl (resolve_segment allowAboveRoot) [] (segments (char_is_separator isSep) path))"

text \<open>
  What the loop of \<open>normalizeString\<close> keeps between two passes, in terms of the segments
  kept so far (\<open>stack\<close>) and of the characters read since the last separator (\<open>cur\<close>).
\<close>

definition dots_of :: "string \<Rightarrow> int" where
  "dots_of cur =
     (if cur = [] then 0
      else if list_all (\<lambda>c. c = CHR ''.'') cur then int (length cur) else - 1)"

definition ns_rel :: "char \<Rightarrow> ns_state \<Rightarrow> string list \<Rightarrow> bool" where
  "ns_rel s st stack =
     (res st = join [s] stack \<and>
      lastSegmentLength st = (if stack = [] then 0 else int (length (last stack))) \<and>
      list_all (\<lambda>seg. seg \<noteq> [] \<and> s \<notin> set seg) stack)"

text \<open>The specification read character by character, as the loop reads the path.\<close>

fun scan_segments ::
  "bool \<Rightarrow> (char \<Rightarrow> bool) \<Rightarrow> string list \<Rightarrow> string \<Rightarrow> string \<Rightarrow> string list"
where
  "scan_segments allow sepc stack cur [] = resolve_segment allow stack cur"
| "scan_segments allow sepc stack cur (c # cs) =
     (if sepc c then scan_segments allow sepc (resolve_segment allow stack cur) [] cs
      else scan_segments allow sepc stack (cur @ [c]) cs)"

text \<open>
  The lists of segments that the specification of \<open>normalizeString\<close> can return, read
  from the last segment to the first: a \<open>..\<close> is there only when \<open>allowAboveRoot\<close> holds
  and only with nothing but \<open>..\<close> before it, and no segment is empty or \<open>.\<close>.
\<close>

fun normal_rev :: "bool \<Rightarrow> string list \<Rightarrow> bool" where
  "normal_rev allow [] = True"
| "normal_rev allow (x # xs) =
     (normal_rev allow xs \<and>
      (if x = ''..'' then allow \<and> (xs = [] \<or> hd xs = ''..'') else x \<noteq> [] \<and> x \<noteq> ''.''))"

definition normal_stack :: "bool \<Rightarrow> string list \<Rightarrow> bool" where
  "normal_stack allow stack = normal_rev allow (rev stack)"

text \<open>The segments that the specification of \<open>normalizeString\<close> keeps.\<close>

definition kept_segments :: "string \<Rightarrow> bool \<Rightarrow> (nat option \<Rightarrow> bool) \<Rightarrow> string list" where
  "kept_segments path allow isSep =
     foldl (resolve_segment allow) [] (segments (char_is_separator isSep) path)"

text \<open>
  The Windows separators as characters, the two forms of a device that the root matching
  of \<open>winNormalize\<close> can find, and the string that \<open>winNormalize\<close> builds from the device,
  the absolute flag, the segments kept and the trailing separator flag.
\<close>

definition wsep :: "char \<Rightarrow> bool" where
  "wsep c = (c = CHR ''/'' \<or> c = BSL)"

definition unc_device :: "string \<Rightarrow> bool" where
  "unc_device d =
     (\<exists>f g. f \<noteq> [] \<and> g \<noteq> [] \<and> list_all (\<lambda>c. \<not> wsep c) f \<and> list_all (\<lambda>c. \<not> wsep c) g \<and>
            d = BSL # BSL # f @ BSL # g)"

definition drive_device :: "string \<Rightarrow> bool" where
  "drive_device d = (\<exists>x. isWindowsDeviceRoot (Some (of_char x)) \<and> d = [x, CHR '':''])"

definition win_tail :: "bool \<Rightarrow> string list \<Rightarrow> string" where
  "win_tail ab stack = (if stack = [] \<and> \<not> ab then ''.'' else join [BSL] stack)"

definition win_assemble :: "string option \<Rightarrow> bool \<Rightarrow> string list \<Rightarrow> bool \<Rightarrow> string" where
  "win_assemble dev ab stack trail =
     (case dev of None \<Rightarrow> [] | Some d \<Rightarrow> d) @ (if ab then [BSL] else []) @
     (if win_tail ab stack \<noteq> [] \<and> trail then win_tail ab stack @ [BSL] else win_tail ab stack)"

text \<open>
  Paths with no redundant separator and no dot segment: a root and then segments joined
  by single separators, none of them empty, \<open>.\<close> or \<open>..\<close>, with at least one segment
  unless the root ends in a separator. The POSIX roots are the empty one and \<open>/\<close>. On
  Windows the separators are backslashes, and the root is empty (the path not starting as
  a drive then), a backslash, a drive, a drive and a backslash, or a UNC device and a
  backslash.
\<close>

definition real_segment :: "(char \<Rightarrow> bool) \<Rightarrow> string \<Rightarrow> bool" where
  "real_segment sepc seg =
     (seg \<noteq> [] \<and> seg \<noteq> ''.'' \<and> seg \<noteq> ''..'' \<and> list_all (\<lambda>c. \<not> sepc c) seg)"

definition posix_plain :: "string \<Rightarrow> bool" where
  "posix_plain p =
     (\<exists>rt reals. p = rt @ join ''/'' reals \<and>
        list_all (real_segment (\<lambda>c. c = CHR ''/'')) reals \<and>
        (rt = ''/'' \<or> (rt = [] \<and> reals \<noteq> [])))"

definition windows_plain :: "string \<Rightarrow> bool" where
  "windows_plain p =
     (\<exists>dev ab reals.
        p = (case dev of None \<Rightarrow> [] | Some d \<Rightarrow> d) @ (if ab then [BSL] else []) @
            join [BSL] reals \<and>
        list_all (real_segment wsep) reals \<and>
        (case dev of None \<Rightarrow> True | Some d \<Rightarrow> (unc_device d \<and> ab) \<or> drive_device d) \<and>
        (\<not> ab \<longrightarrow> reals \<noteq> []) \<and>
        (dev = None \<and> \<not> ab \<longrightarrow> \<not> has_drive_prefix p))"

text \<open>
  The specification of \<open>relative\<close> on lists of segments. \<open>common_prefix_length\<close> is the
  length of the longest common prefix of two lists, and \<open>relative_steps k fs ts\<close> is one
  \<open>..\<close> for each of the segments \<open>fs\<close> behind the first \<open>k\<close>, followed by the segments
  \<open>ts\<close> behind the first \<open>k\<close>. \<open>path_segments\<close> are the segments of a path that are not
  empty; \<open>plain_segments\<close> holds of a list of segments none of which is empty or contains
  the separator.
\<close>

fun common_prefix_length :: "'a list \<Rightarrow> 'a list \<Rightarrow> nat" where
  "common_prefix_length (x # xs) (y # ys) =
     (if x = y then Suc (common_prefix_length xs ys) else 0)"
| "common_prefix_length xs ys = 0"


definition plain_segments :: "char \<Rightarrow> string list \<Rightarrow> bool" where
  "plain_segments s segs = list_all (\<lambda>seg. seg \<noteq> [] \<and> s \<notin> set seg) segs"




text \<open>
  The resolved Windows paths that start with a drive, or with a UNC root, followed by a
  backslash and by segments joined with single backslashes.
\<close>

definition drive_rooted :: "string \<Rightarrow> bool" where
  "drive_rooted p =
     (\<exists>d reals. drive_device d \<and> plain_segments BSL reals \<and> p = d @ BSL # join [BSL] reals)"

definition unc_rooted :: "string \<Rightarrow> bool" where
  "unc_rooted p =
     (\<exists>d reals. unc_device d \<and> plain_segments BSL reals \<and> p = d @ BSL # join [BSL] reals)"

text \<open>
  The walk of \<open>winResolve\<close> over string arguments only, from the last to the first, as the
  specification words it: an empty argument is passed over, every other one goes through
  one pass of the loop, and the walk stops once both an absolute path and a device are
  resolved. \<open>win_walk\<close> gives the state in which the walk over a list of strings ends.
\<close>

definition win_done :: "wr_state \<Rightarrow> bool" where
  "win_done st = (resolvedAbsolute st \<and> resolvedDevice st \<noteq> [])"

fun win_walk_from :: "string list \<Rightarrow> wr_state \<Rightarrow> wr_state" where
  "win_walk_from [] st = st"
| "win_walk_from (p # ps) st =
     (if win_done st then st
      else win_walk_from ps (if p = [] then st else fst (winResolve_step p st)))"

definition win_walk :: "string list \<Rightarrow> wr_state" where
  "win_walk paths =
     win_walk_from (rev paths)
       \<lparr>resolvedDevice = [], resolvedTail = [], resolvedAbsolute = False\<rparr>"

section \<open>Verification\<close>

subsection \<open>Character codes\<close>

lemma of_char_47: "(of_char c :: nat) = 47 \<longleftrightarrow> c = CHR ''/''"
proof -
  have "(of_char c :: nat) = of_char (CHR ''/'') \<longleftrightarrow> c = CHR ''/''" by (rule of_char_eq_iff)
  then show ?thesis by simp
qed

lemma charCodeAt_0: "charCodeAt p 0 = Some c \<longleftrightarrow> (p \<noteq> [] \<and> of_char (hd p) = c)"
  by (cases p) (auto simp: charCodeAt_def)

lemma first_is_slash:
  "charCodeAt p 0 = Some CHAR_FORWARD_SLASH \<longleftrightarrow> (p \<noteq> [] \<and> hd p = CHR ''/'')"
  by (simp add: charCodeAt_0 of_char_47)

subsection \<open>basename with the whole path as suffix\<close>

text \<open>
  C10. For a path that is not empty, \<open>basename(p, p)\<close> is the empty string in both
  engines: the whole input is taken as the suffix, where \<open>basename(p)\<close> gives the last
  segment.
\<close>

theorem basename_whole_path_as_suffix:
  "p \<noteq> [] \<Longrightarrow>
     posBasename (JSString p) (JSString p) = Inr [] \<and>
     winBasename (JSString p) (JSString p) = Inr []"
  by (simp add: posBasename_def winBasename_def validate_suffix_def basename_from_def)

theorem basename_whole_path_as_suffix_witness:
  "''/a/b'' \<noteq> [] \<and>
   posBasename (JSString ''/a/b'') (JSString ''/a/b'') = Inr [] \<and>
   winBasename (JSString ''/a/b'') (JSString ''/a/b'') = Inr [] \<and>
   posBasename (JSString ''/a/b'') JSUndefined = Inr ''b'' \<and>
   winBasename (JSString ''/a/b'') JSUndefined = Inr ''b''"
proof -
  have ne: "''/a/b'' \<noteq> []" by simp
  have 1: "posBasename (JSString ''/a/b'') JSUndefined = Inr ''b''" by code_simp
  have 2: "winBasename (JSString ''/a/b'') JSUndefined = Inr ''b''" by code_simp
  show ?thesis using basename_whole_path_as_suffix [OF ne] 1 2 by simp
qed

subsection \<open>POSIX resolve\<close>

lemma posResolve_loop_walk:
  "k \<le> length paths \<Longrightarrow>
   posResolve_loop h (map JSString paths) k acc False =
     Inr (resolve_walk (rev (take k paths) @ [posixCwd h]) acc)"
proof (induction k arbitrary: acc)
  case 0
  show ?case by (simp add: first_is_slash Let_def)
next
  case (Suc k)
  then have k: "k < length paths" by simp
  have t: "rev (take (Suc k) paths) = paths ! k # rev (take k paths)"
    using k by (simp add: take_Suc_conv_app_nth)
  show ?case
  proof (cases "paths ! k = []")
    case True
    then show ?thesis using Suc k t by simp
  next
    case False
    show ?thesis
    proof (cases "hd (paths ! k) = CHR ''/''")
      case True
      then show ?thesis using False k t
        by (cases k) (simp_all add: first_is_slash)
    next
      case nabs: False
      then show ?thesis using False Suc k t by (simp add: first_is_slash)
    qed
  qed
qed

text \<open>
  C7. POSIX \<open>resolve\<close> on string arguments is the backward walk of the specification:
  from the last argument to the first and then the working directory, each path that is
  not empty goes in front of the accumulator until one is absolute; the accumulator is
  normalized with \<open>allowAboveRoot\<close> the negation of having found an absolute path, and
  the result is \<open>/\<close> and the tail when absolute, else the tail, or \<open>.\<close> when it is empty.
  And \<open>posResolve('/a', 'b')\<close> is \<open>/a/b\<close> on every host.
\<close>

theorem posResolve_walks_backwards:
  "posResolve h (map JSString paths) = Inr (posResolve_spec h paths) \<and>
   posResolve h [JSString ''/a'', JSString ''b''] = Inr ''/a/b''"
proof
  show "posResolve h (map JSString paths) = Inr (posResolve_spec h paths)"
    using posResolve_loop_walk [of "length paths" paths h "[]"]
    by (simp add: posResolve_def posResolve_spec_def Let_def split: prod.splits)
  show "posResolve h [JSString ''/a'', JSString ''b''] = Inr ''/a/b''"
    by (simp add: posResolve_def charCodeAt_def) code_simp
qed

theorem posResolve_walks_backwards_witness:
  "posResolve posix_host (map JSString [''a'', '''', ''../b'']) = Inr ''/home/user/b'' \<and>
   posResolve_spec posix_host [''a'', '''', ''../b''] = ''/home/user/b'' \<and>
   posResolve windows_host [JSString ''/a'', JSString ''b''] = Inr ''/a/b''"
proof -
  have "posResolve_spec posix_host [''a'', '''', ''../b''] = ''/home/user/b''"
    by code_simp
  then show ?thesis
    using posResolve_walks_backwards [of posix_host "[''a'', '''', ''../b'']"]
      posResolve_walks_backwards [of windows_host "[]"]
    by simp
qed

subsection \<open>Windows resolve\<close>

lemma of_char_46: "(of_char c :: nat) = 46 \<longleftrightarrow> c = CHR ''.''"
proof -
  have "(of_char c :: nat) = of_char (CHR ''.'') \<longleftrightarrow> c = CHR ''.''" by (rule of_char_eq_iff)
  then show ?thesis by simp
qed

lemma of_char_92: "(of_char c :: nat) = 92 \<longleftrightarrow> c = BSL"
proof -
  have "(of_char c :: nat) = of_char BSL \<longleftrightarrow> c = BSL" by (rule of_char_eq_iff)
  then show ?thesis by simp
qed

lemma of_char_58: "(of_char c :: nat) = 58 \<longleftrightarrow> c = CHR '':''"
proof -
  have "(of_char c :: nat) = of_char (CHR '':'') \<longleftrightarrow> c = CHR '':''" by (rule of_char_eq_iff)
  then show ?thesis by simp
qed

lemma of_char_63: "(of_char c :: nat) = 63 \<longleftrightarrow> c = CHR ''?''"
proof -
  have "(of_char c :: nat) = of_char (CHR ''?'') \<longleftrightarrow> c = CHR ''?''" by (rule of_char_eq_iff)
  then show ?thesis by simp
qed

lemmas of_char_codes = of_char_46 of_char_47 of_char_92 of_char_58 of_char_63

lemma charCodeAt_Cons0 [simp]: "charCodeAt (c # cs) 0 = Some (of_char c)"
  by (simp add: charCodeAt_def)

lemma charCodeAt_Cons1 [simp]: "charCodeAt (a # c # cs) 1 = Some (of_char c)"
  by (simp add: charCodeAt_def)

lemma charCodeAt_Cons2 [simp]: "charCodeAt (a # b # c # cs) 2 = Some (of_char c)"
  by (simp add: charCodeAt_def)

lemma backslash_no_device_root [simp]: "\<not> isWindowsDeviceRoot (Some CHAR_BACKWARD_SLASH)"
  by (simp add: isWindowsDeviceRoot_def)

lemma slice_from_2: "length r > 2 \<Longrightarrow> slice_from r 2 = drop 2 r"
  by (simp add: slice_from_def slice_def Let_def)

lemma validateString_non_string:
  "\<forall>s. v \<noteq> JSString s \<Longrightarrow> validateString v nm = Inl (InvalidArgumentType nm)"
  by (cases v) simp_all

lemma winResolve_cwd_env: "env h \<noteq> None \<Longrightarrow> \<exists>path. winResolve_cwd h dev = Inr path"
  by (auto simp: winResolve_cwd_def Let_def)

lemma winResolve_loop_strings:
  assumes "env h \<noteq> None"
  shows "k \<le> length ss \<Longrightarrow> \<exists>st'. winResolve_loop h (map JSString ss) k st = Inr st'"
proof (induction k arbitrary: st)
  case 0
  show ?case using winResolve_cwd_env [OF assms, of "resolvedDevice st"] by auto
next
  case (Suc k)
  then show ?case by (auto split: prod.splits)
qed

lemma winResolve_strings:
  assumes "env h \<noteq> None"
  shows "\<exists>r. winResolve h (map JSString ss) = Inr r"
proof -
  obtain st' where "winResolve_loop h (map JSString ss) (length ss)
      \<lparr>resolvedDevice = [], resolvedTail = [], resolvedAbsolute = False\<rparr> = Inr st'"
    using winResolve_loop_strings [OF assms, of "length ss" ss] by blast
  then show ?thesis by (simp add: winResolve_def Let_def)
qed

lemma winResolve_loop_prefix:
  "k \<le> length pre \<Longrightarrow>
   winResolve_loop h (pre @ xs) k st = winResolve_loop h (pre @ ys) k st"
proof (induction k arbitrary: st)
  case 0
  show ?case by simp
next
  case (Suc k)
  then have "k < length pre" by simp
  then have nth: "(pre @ xs) ! k = (pre @ ys) ! k" by (simp add: nth_append)
  show ?case using Suc by (simp add: nth split: sum.splits prod.splits)
qed

lemma win_device_nonempty: "win_device p \<noteq> [] \<Longrightarrow> p \<noteq> []"
  by (auto simp: win_device_def winResolve_root_def charCodeAt_def isPathSeparator_def isWindowsDeviceRoot_def)

lemma winResolve_step_skip:
  "win_device a \<noteq> [] \<Longrightarrow> resolvedDevice st \<noteq> [] \<Longrightarrow>
   toLowerCase (win_device a) \<noteq> toLowerCase (resolvedDevice st) \<Longrightarrow>
   winResolve_step a st = (st, False)"
  by (cases "winResolve_root a") (auto simp: winResolve_step_def win_device_def)

lemma winResolve_step_break:
  "\<not> (resolvedAbsolute st \<and> resolvedDevice st \<noteq> []) \<Longrightarrow>
   winResolve_step a st = (st', brk) \<Longrightarrow>
   brk \<longleftrightarrow> (resolvedAbsolute st' \<and> resolvedDevice st' \<noteq> [])"
  by (cases "winResolve_root a") (auto simp: winResolve_step_def Let_def split: if_splits)

text \<open>
  C5. Windows \<open>resolve\<close> walks its arguments from the last to the first. A pass over an
  argument whose device differs (letter case apart) from the device already resolved leaves
  the state as it is and goes on; a pass after which both an absolute path and a device are
  resolved ends the walk. So an argument on another device in front of the last argument
  changes nothing, whatever stands in front of a last argument that is absolute with a
  device is not read, and \<open>winResolve\<close> of \<open>C:\<close>, backslash, \<open>a\<close> and of \<open>D:\<close>,
  backslash, \<open>b\<close> is the latter, a path on device \<open>D:\<close>, on every host.
\<close>

theorem winResolve_device_walk:
  "(\<forall>args i (st::wr_state) a.
      args ! i = JSString a \<and> win_device a \<noteq> [] \<and> resolvedDevice st \<noteq> [] \<and>
      toLowerCase (win_device a) \<noteq> toLowerCase (resolvedDevice st) \<longrightarrow>
      winResolve_loop h args (Suc i) st = winResolve_loop h args i st) \<and>
   (\<forall>args i (st::wr_state) a st' brk.
      args ! i = JSString a \<and> a \<noteq> [] \<and>
      \<not> (resolvedAbsolute st \<and> resolvedDevice st \<noteq> []) \<and>
      winResolve_step a st = (st', brk) \<and>
      resolvedAbsolute st' \<and> resolvedDevice st' \<noteq> [] \<longrightarrow>
      winResolve_loop h args (Suc i) st = Inr st') \<and>
   (\<forall>pre a b.
      win_device a \<noteq> [] \<and> win_device b \<noteq> [] \<and>
      toLowerCase (win_device a) \<noteq> toLowerCase (win_device b) \<longrightarrow>
      winResolve h (pre @ [JSString a, JSString b]) = winResolve h (pre @ [JSString b])) \<and>
   (\<forall>pre b.
      win_absolute b \<and> win_device b \<noteq> [] \<longrightarrow>
      winResolve h (pre @ [JSString b]) = winResolve h [JSString b]) \<and>
   winResolve h [JSString (''C:'' @ [BSL] @ ''a''), JSString (''D:'' @ [BSL] @ ''b'')]
     = Inr (''D:'' @ [BSL] @ ''b'')"
proof (intro conjI allI impI)
  fix args :: "js_value list" and i and st :: wr_state and a
  assume a: "args ! i = JSString a \<and> win_device a \<noteq> [] \<and> resolvedDevice st \<noteq> [] \<and>
      toLowerCase (win_device a) \<noteq> toLowerCase (resolvedDevice st)"
  then have "a \<noteq> []" using win_device_nonempty by blast
  then show "winResolve_loop h args (Suc i) st = winResolve_loop h args i st"
    using a winResolve_step_skip [of a st] by simp
next
  fix args :: "js_value list" and i and st :: wr_state and a st' brk
  assume a: "args ! i = JSString a \<and> a \<noteq> [] \<and>
      \<not> (resolvedAbsolute st \<and> resolvedDevice st \<noteq> []) \<and>
      winResolve_step a st = (st', brk) \<and>
      resolvedAbsolute st' \<and> resolvedDevice st' \<noteq> []"
  then have "brk" using winResolve_step_break [of st a st' brk] by blast
  then show "winResolve_loop h args (Suc i) st = Inr st'" using a by simp
next
  fix pre a b
  assume a: "win_device a \<noteq> [] \<and> win_device b \<noteq> [] \<and>
      toLowerCase (win_device a) \<noteq> toLowerCase (win_device b)"
  let ?st0 = "\<lparr>resolvedDevice = [], resolvedTail = [], resolvedAbsolute = False\<rparr> :: wr_state"
  have ne: "a \<noteq> []" "b \<noteq> []" using a win_device_nonempty by blast+
  obtain st' brk where step: "winResolve_step b ?st0 = (st', brk)" by fastforce
  have dev: "resolvedDevice st' = win_device b"
    using step a by (cases "winResolve_root b") (auto simp: winResolve_step_def win_device_def Let_def split: if_splits)
  have l1: "winResolve_loop h (pre @ [JSString a, JSString b]) (Suc (Suc (length pre))) ?st0
      = (if brk then Inr st' else winResolve_loop h (pre @ [JSString a, JSString b]) (length pre) st')"
    using ne step a dev winResolve_step_skip [of a st'] by (simp add: nth_append)
  have l2: "winResolve_loop h (pre @ [JSString b]) (Suc (length pre)) ?st0
      = (if brk then Inr st' else winResolve_loop h (pre @ [JSString b]) (length pre) st')"
    using ne step by (simp add: nth_append)
  have "winResolve_loop h (pre @ [JSString a, JSString b]) (length pre) st'
      = winResolve_loop h (pre @ [JSString b]) (length pre) st'"
    by (rule winResolve_loop_prefix) simp
  then show "winResolve h (pre @ [JSString a, JSString b]) = winResolve h (pre @ [JSString b])"
    using l1 l2 by (simp add: winResolve_def)
next
  fix pre b
  assume a: "win_absolute b \<and> win_device b \<noteq> []"
  let ?st0 = "\<lparr>resolvedDevice = [], resolvedTail = [], resolvedAbsolute = False\<rparr> :: wr_state"
  have ne: "b \<noteq> []" using a win_device_nonempty by blast
  obtain st' brk where step: "winResolve_step b ?st0 = (st', brk)" by fastforce
  have brk: "brk"
    using step a by (cases "winResolve_root b") (auto simp: winResolve_step_def win_device_def win_absolute_def Let_def split: if_splits)
  have "winResolve_loop h (pre @ [JSString b]) (Suc (length pre)) ?st0 = Inr st'"
    using ne step brk by (simp add: nth_append)
  moreover have "winResolve_loop h [JSString b] (Suc 0) ?st0 = Inr st'"
    using ne step brk by simp
  ultimately show "winResolve h (pre @ [JSString b]) = winResolve h [JSString b]"
    by (simp add: winResolve_def)
next
  show "winResolve h [JSString (''C:'' @ [BSL] @ ''a''), JSString (''D:'' @ [BSL] @ ''b'')]
     = Inr (''D:'' @ [BSL] @ ''b'')"
  proof -
    have r: "winResolve_root (''D:'' @ [BSL] @ ''b'') = (3, ''D:'', True)" by code_simp
    have s: "slice_from (''D:'' @ [BSL] @ ''b'') 3 = ''b''" by code_simp
    have n: "normalizeString (''b'' @ [BSL]) False [BSL] isPathSeparator = ''b''" by code_simp
    show ?thesis using r s n
      by (simp add: winResolve_def winResolve_step_def)
  qed
qed

theorem winResolve_device_walk_witness:
  "winResolve windows_host [JSString ''C:x'', JSString ''d:y'']
     = winResolve windows_host [JSString ''d:y''] \<and>
   winResolve windows_host [JSNumber 1, JSString (''D:'' @ [BSL] @ ''b'')]
     = winResolve windows_host [JSString (''D:'' @ [BSL] @ ''b'')] \<and>
   winResolve windows_host [JSString (''C:'' @ [BSL] @ ''a''), JSString (''D:'' @ [BSL] @ ''b'')]
     = Inr (''D:'' @ [BSL] @ ''b'') \<and>
   winResolve_loop windows_host [JSString ''C:x''] (Suc 0)
       \<lparr>resolvedDevice = ''D:'', resolvedTail = ''y'', resolvedAbsolute = False\<rparr>
     = winResolve_loop windows_host [JSString ''C:x''] 0
       \<lparr>resolvedDevice = ''D:'', resolvedTail = ''y'', resolvedAbsolute = False\<rparr> \<and>
   winResolve_loop windows_host [JSNumber 1, JSString ''C:/x''] (Suc 1)
       \<lparr>resolvedDevice = [], resolvedTail = ''y'', resolvedAbsolute = False\<rparr>
     = Inr \<lparr>resolvedDevice = ''C:'', resolvedTail = ''x'' @ [BSL] @ ''y'',
            resolvedAbsolute = True\<rparr>"
proof -
  note T = winResolve_device_walk [of windows_host]
  have d1: "win_device ''C:x'' = ''C:''" by code_simp
  have d2: "win_device ''d:y'' = ''d:''" by code_simp
  have d3: "win_device (''D:'' @ [BSL] @ ''b'') = ''D:''" by code_simp
  have a3: "win_absolute (''D:'' @ [BSL] @ ''b'')" by code_simp
  have l1: "toLowerCase ''C:'' \<noteq> toLowerCase ''d:''" by code_simp
  have l2: "toLowerCase ''C:'' \<noteq> toLowerCase ''D:''" by code_simp
  have s5: "winResolve_step ''C:/x''
      \<lparr>resolvedDevice = [], resolvedTail = ''y'', resolvedAbsolute = False\<rparr>
    = (\<lparr>resolvedDevice = ''C:'', resolvedTail = ''x'' @ [BSL] @ ''y'',
            resolvedAbsolute = True\<rparr>, True)" by code_simp
  have 1: "winResolve windows_host ([] @ [JSString ''C:x'', JSString ''d:y''])
     = winResolve windows_host ([] @ [JSString ''d:y''])"
    using T [THEN conjunct2, THEN conjunct2, THEN conjunct1, rule_format, of "''C:x''" "''d:y''" "[]"]
      d1 d2 l1 by simp
  have 2: "winResolve windows_host ([JSNumber 1] @ [JSString (''D:'' @ [BSL] @ ''b'')])
     = winResolve windows_host [JSString (''D:'' @ [BSL] @ ''b'')]"
    using T [THEN conjunct2, THEN conjunct2, THEN conjunct2, THEN conjunct1, rule_format,
        of "''D:'' @ [BSL] @ ''b''" "[JSNumber 1]"] d3 a3 by simp
  have 3: "winResolve windows_host [JSString (''C:'' @ [BSL] @ ''a''), JSString (''D:'' @ [BSL] @ ''b'')]
     = Inr (''D:'' @ [BSL] @ ''b'')"
    using T by blast
  have 4: "winResolve_loop windows_host [JSString ''C:x''] (Suc 0)
       \<lparr>resolvedDevice = ''D:'', resolvedTail = ''y'', resolvedAbsolute = False\<rparr>
     = winResolve_loop windows_host [JSString ''C:x''] 0
       \<lparr>resolvedDevice = ''D:'', resolvedTail = ''y'', resolvedAbsolute = False\<rparr>"
    using T [THEN conjunct1, rule_format, of "[JSString ''C:x'']" 0 "''C:x''"
        "\<lparr>resolvedDevice = ''D:'', resolvedTail = ''y'', resolvedAbsolute = False\<rparr>"]
      d1 l2 by simp
  have 5: "winResolve_loop windows_host [JSNumber 1, JSString ''C:/x''] (Suc 1)
       \<lparr>resolvedDevice = [], resolvedTail = ''y'', resolvedAbsolute = False\<rparr>
     = Inr \<lparr>resolvedDevice = ''C:'', resolvedTail = ''x'' @ [BSL] @ ''y'',
            resolvedAbsolute = True\<rparr>"
    using T [THEN conjunct2, THEN conjunct1, rule_format, of "[JSNumber 1, JSString ''C:/x'']" 1 "''C:/x''"
        "\<lparr>resolvedDevice = [], resolvedTail = ''y'', resolvedAbsolute = False\<rparr>"
        "\<lparr>resolvedDevice = ''C:'', resolvedTail = ''x'' @ [BSL] @ ''y'', resolvedAbsolute = True\<rparr>" True]
      s5 by simp
  show ?thesis using 1 2 3 4 5 by simp
qed

subsection \<open>Arguments that are not strings\<close>

lemma posJoin_loop_non_string:
  "\<forall>s. v \<noteq> JSString s \<Longrightarrow>
   posJoin_loop (map JSString ss @ v # rest) j = Inl (InvalidArgumentType ''path'')"
  by (induction ss arbitrary: j) (auto simp: validateString_non_string split: option.splits)

lemma winJoin_loop_non_string:
  "\<forall>s. v \<noteq> JSString s \<Longrightarrow>
   winJoin_loop (map JSString ss @ v # rest) j = Inl (InvalidArgumentType ''path'')"
  by (induction ss arbitrary: j) (auto simp: validateString_non_string split: option.splits)

lemma posResolve_loop_non_string:
  assumes v: "\<forall>s. v \<noteq> JSString s" and ss: "\<forall>s \<in> set ss. \<not> pos_absolute s"
  shows "k \<le> length ss \<Longrightarrow>
    posResolve_loop h (pre @ v # map JSString ss) (Suc (length pre) + k) acc False
      = Inl (InvalidArgumentType (paths_name (int (length pre))))"
proof (induction k arbitrary: acc)
  case 0
  show ?case using v by (simp add: validateString_non_string nth_append)
next
  case (Suc k)
  then have k: "k < length ss" by simp
  have nth: "(pre @ v # map JSString ss) ! (Suc (length pre) + k) = JSString (ss ! k)"
    using k by (simp add: nth_append)
  have "\<not> pos_absolute (ss ! k)" using ss k by simp
  then show ?case using Suc nth by (simp add: pos_absolute_def)
qed

lemma winResolve_step_not_absolute:
  "\<not> win_absolute a \<Longrightarrow> \<not> resolvedAbsolute st \<Longrightarrow> winResolve_step a st = (st', brk) \<Longrightarrow>
   \<not> brk \<and> \<not> resolvedAbsolute st'"
  by (cases "winResolve_root a") (auto simp: winResolve_step_def win_absolute_def Let_def split: if_splits)

lemma winResolve_loop_non_string:
  assumes v: "\<forall>s. v \<noteq> JSString s" and ss: "\<forall>s \<in> set ss. \<not> win_absolute s"
  shows "k \<le> length ss \<Longrightarrow> \<not> resolvedAbsolute st \<Longrightarrow>
    winResolve_loop h (pre @ v # map JSString ss) (Suc (length pre) + k) st
      = Inl (InvalidArgumentType (paths_name (int (length pre))))"
proof (induction k arbitrary: st)
  case 0
  show ?case using v by (simp add: validateString_non_string nth_append)
next
  case (Suc k)
  then have k: "k < length ss" by simp
  have nth: "(pre @ v # map JSString ss) ! (Suc (length pre) + k) = JSString (ss ! k)"
    using k by (simp add: nth_append)
  have na: "\<not> win_absolute (ss ! k)" using ss k by simp
  obtain st' brk where step: "winResolve_step (ss ! k) st = (st', brk)" by fastforce
  have "\<not> brk \<and> \<not> resolvedAbsolute st'"
    using winResolve_step_not_absolute [OF na Suc.prems(2) step] .
  then show ?case using Suc nth step by simp
qed

subsection \<open>parse: base, name and ext\<close>

lemma slice_append:
  "0 \<le> a \<Longrightarrow> a \<le> b \<Longrightarrow> b \<le> c \<Longrightarrow> c \<le> int (length s) \<Longrightarrow>
   slice s a b @ slice s b c = slice s a c"
proof -
  assume a: "0 \<le> a" "a \<le> b" "b \<le> c" "c \<le> int (length s)"
  have "take (nat (b - a)) (drop (nat a) s) @ take (nat (c - b)) (drop (nat b) s)
      = take (nat (c - a)) (drop (nat a) s)"
  proof -
    have "nat b = nat a + nat (b - a)" using a by simp
    then have d: "drop (nat b) s = drop (nat (b - a)) (drop (nat a) s)"
      by (simp add: add.commute)
    have "nat (c - a) = nat (b - a) + nat (c - b)" using a by simp
    then show ?thesis by (simp add: d take_add)
  qed
  then show ?thesis using a by (simp add: slice_def Let_def min_def)
qed

lemma slice_nonempty:
  "0 \<le> a \<Longrightarrow> a < b \<Longrightarrow> b \<le> int (length s) \<Longrightarrow> slice s a b \<noteq> []"
  by (simp add: slice_def Let_def min_def)

lemma ext_scan_post:
  "k \<le> length path \<Longrightarrow> scan_inv (length path) lo k st \<Longrightarrow>
   scan_post (length path) lo (ext_scan isSep path lo k st)"
proof (induction k arbitrary: st)
  case 0
  then show ?case by (auto simp: scan_inv_def scan_post_def)
next
  case (Suc i)
  have i: "i \<le> length path" using Suc.prems by simp
  show ?case
  proof (cases "int i < lo")
    case True
    then show ?thesis using Suc.prems by (auto simp: scan_inv_def scan_post_def)
  next
    case lo: False
    show ?thesis
    proof (cases "isSep (charCodeAt path (int i))")
      case True
      show ?thesis
      proof (cases "scan_matchedSlash st")
        case True
        have "scan_inv (length path) lo i st"
          using Suc.prems by (auto simp: scan_inv_def)
        then show ?thesis using Suc.IH [OF i] lo True \<open>isSep (charCodeAt path (int i))\<close>
          by simp
      next
        case False
        then show ?thesis using Suc.prems lo True
          by (auto simp: scan_inv_def scan_post_def)
      qed
    next
      case False
      define st1 where "st1 = (if scan_end st = - 1
                          then st\<lparr>scan_matchedSlash := False, scan_end := int i + 1\<rparr>
                          else st)"
      define st2 where "st2 = (if charCodeAt path (int i) = Some CHAR_DOT then
                            (if startDot st1 = - 1 then st1\<lparr>startDot := int i\<rparr>
                             else if preDotState st1 \<noteq> 1 then st1\<lparr>preDotState := 1\<rparr>
                             else st1)
                          else if startDot st1 \<noteq> - 1 then st1\<lparr>preDotState := - 1\<rparr>
                          else st1)"
      have inv1: "scan_inv (length path) lo i st1 \<and> scan_end st1 \<noteq> - 1"
        using Suc.prems lo by (auto simp: scan_inv_def st1_def)
      have inv2: "scan_inv (length path) lo i st2"
        using inv1 lo by (auto simp: scan_inv_def st2_def)
      have "ext_scan isSep path lo (Suc i) st = ext_scan isSep path lo i st2"
        using lo False by (simp add: st1_def st2_def Let_def)
      then show ?thesis using Suc.IH [OF i inv2] by simp
    qed
  qed
qed

lemma ext_scan_startPart_nonneg:
  "0 \<le> startPart st \<Longrightarrow> 0 \<le> startPart (ext_scan isSep path lo k st)"
proof (induction k arbitrary: st)
  case 0
  then show ?case by simp
next
  case (Suc i)
  then show ?case by (simp add: Let_def)
qed

lemma ext_scan_initial:
  assumes "sp \<le> lo"
  shows "scan_post (length path) lo
           (ext_scan isSep path lo (length path)
              \<lparr>startDot = - 1, startPart = sp, scan_end = - 1,
               scan_matchedSlash = True, preDotState = 0\<rparr>)"
  by (rule ext_scan_post) (simp_all add: scan_inv_def assms)

lemma no_extension_startDot: "\<not> no_extension st \<Longrightarrow> startDot st \<noteq> - 1"
  by (auto simp: no_extension_def)

lemma scan_fields:
  assumes post: "scan_post len lo st" and sp: "0 \<le> start'" "start' \<le> max lo (startPart st)"
    and len: "len = length p" and ne: "\<not> no_extension st"
  shows "slice p start' (startDot st) @ slice p (startDot st) (scan_end st)
           = slice p start' (scan_end st) \<and>
         slice p (startDot st) (scan_end st) \<noteq> []"
proof -
  have d: "startDot st \<noteq> - 1" using ne by (rule no_extension_startDot)
  then have b: "start' \<le> startDot st" "startDot st < scan_end st" "scan_end st \<le> int (length p)"
    using post sp len by (auto simp: scan_post_def)
  show ?thesis using b sp by (simp add: slice_append slice_nonempty)
qed

lemma posParse_string_base: "base_name_ext (posParse_string p)"
proof (cases "p = []")
  case True
  then show ?thesis by (simp add: posParse_string_def base_name_ext_def)
next
  case False
  show ?thesis
  proof (cases "charCodeAt p 0 = Some CHAR_FORWARD_SLASH")
    case True
    let ?st = "ext_scan isPosixPathSeparator p 1 (length p)
                       \<lparr>startDot = - 1, startPart = 0, scan_end = - 1,
                        scan_matchedSlash = True, preDotState = 0\<rparr>"
    have post: "scan_post (length p) 1 ?st"
      by (rule ext_scan_initial) simp
    have sp: "0 \<le> startPart ?st"
      by (rule ext_scan_startPart_nonneg) simp
    have f1: "\<not> no_extension ?st \<Longrightarrow>
         slice p 1 (startDot ?st) @ slice p (startDot ?st) (scan_end ?st)
           = slice p 1 (scan_end ?st) \<and>
         slice p (startDot ?st) (scan_end ?st) \<noteq> []"
      by (rule scan_fields [OF post]) simp_all
    have f2: "\<not> no_extension ?st \<Longrightarrow>
         slice p (startPart ?st) (startDot ?st) @ slice p (startDot ?st) (scan_end ?st)
           = slice p (startPart ?st) (scan_end ?st) \<and>
         slice p (startDot ?st) (scan_end ?st) \<noteq> []"
      using sp by (intro scan_fields [OF post]) simp_all
    show ?thesis
      using False True f1 f2
      by (auto simp add: posParse_string_def base_name_ext_def Let_def)
  next
    case nabs: False
    let ?st = "ext_scan isPosixPathSeparator p 0 (length p)
                       \<lparr>startDot = - 1, startPart = 0, scan_end = - 1,
                        scan_matchedSlash = True, preDotState = 0\<rparr>"
    have post: "scan_post (length p) 0 ?st"
      by (rule ext_scan_initial) simp
    have sp: "0 \<le> startPart ?st"
      by (rule ext_scan_startPart_nonneg) simp
    have f2: "\<not> no_extension ?st \<Longrightarrow>
         slice p (startPart ?st) (startDot ?st) @ slice p (startDot ?st) (scan_end ?st)
           = slice p (startPart ?st) (scan_end ?st) \<and>
         slice p (startDot ?st) (scan_end ?st) \<noteq> []"
      using sp by (intro scan_fields [OF post]) simp_all
    show ?thesis
      using False nabs f2
      by (auto simp add: posParse_string_def base_name_ext_def Let_def)
  qed
qed

lemma winParse_string_base: "base_name_ext (winParse_string p)"
proof (cases "length p \<le> 1")
  case True
  then have "p = [] \<or> length p = 1" by (cases p) auto
  then show ?thesis by (auto simp add: winParse_string_def base_name_ext_def Let_def)
next
  case False
  then have long: "length p \<noteq> 0" "length p \<noteq> 1" by auto
  show ?thesis
  proof (cases "winParse_root p")
    case None
    then show ?thesis using long
      by (simp add: winParse_string_def base_name_ext_def Let_def del: length_0_conv)
  next
    case (Some rootEnd)
    let ?st = "ext_scan isPathSeparator p (int rootEnd) (length p)
                            \<lparr>startDot = - 1, startPart = int rootEnd, scan_end = - 1,
                             scan_matchedSlash = True, preDotState = 0\<rparr>"
    have post: "scan_post (length p) (int rootEnd) ?st"
      by (rule ext_scan_initial) simp
    have sp: "0 \<le> startPart ?st"
      by (rule ext_scan_startPart_nonneg) simp
    have f2: "\<not> no_extension ?st \<Longrightarrow>
         slice p (startPart ?st) (startDot ?st) @ slice p (startDot ?st) (scan_end ?st)
           = slice p (startPart ?st) (scan_end ?st) \<and>
         slice p (startDot ?st) (scan_end ?st) \<noteq> []"
      using sp by (intro scan_fields [OF post]) simp_all
    show ?thesis
      using long Some f2
      by (auto simp add: winParse_string_def base_name_ext_def Let_def simp del: length_0_conv)
  qed
qed

text \<open>
  C9. For every string and both engines, the object that \<open>parse\<close> returns has \<open>base\<close>
  equal to \<open>name\<close> followed by \<open>ext\<close> when \<open>ext\<close> is not empty, and \<open>base\<close> equal to
  \<open>name\<close> when \<open>ext\<close> is empty.
\<close>

theorem parse_base_is_name_ext:
  "(\<exists>r. posParse (JSString p) = Inr r \<and>
        (if ext r = [] then base r = name r else base r = name r @ ext r)) \<and>
   (\<exists>r. winParse (JSString p) = Inr r \<and>
        (if ext r = [] then base r = name r else base r = name r @ ext r))"
  using posParse_string_base [of p] winParse_string_base [of p]
  by (simp add: posParse_def winParse_def base_name_ext_def)

theorem parse_base_is_name_ext_witness:
  "posParse (JSString ''/home/user/file.txt'')
     = Inr \<lparr>root = ''/'', dir = ''/home/user'', base = ''file.txt'', ext = ''.txt'', name = ''file''\<rparr> \<and>
   winParse (JSString ''C:/a/..'')
     = Inr \<lparr>root = ''C:/'', dir = ''C:/a'', base = ''..'', ext = [], name = ''..''\<rparr> \<and>
   ''file.txt'' = ''file'' @ ''.txt''"
proof -
  have 1: "posParse (JSString ''/home/user/file.txt'')
     = Inr \<lparr>root = ''/'', dir = ''/home/user'', base = ''file.txt'', ext = ''.txt'', name = ''file''\<rparr>"
    by code_simp
  have 2: "winParse (JSString ''C:/a/..'')
     = Inr \<lparr>root = ''C:/'', dir = ''C:/a'', base = ''..'', ext = [], name = ''..''\<rparr>"
    by code_simp
  show ?thesis
    using parse_base_is_name_ext [of "''/home/user/file.txt''"] 1 2 by simp
qed

subsection \<open>normalizeString and its specification\<close>

lemma join_snoc: "join sep (xs @ [y]) = (if xs = [] then y else join sep xs @ sep @ y)"
  by (induction sep xs rule: join.induct) auto

lemma join_eq_Nil: "\<forall>x \<in> set xs. x \<noteq> [] \<Longrightarrow> join sep xs = [] \<longleftrightarrow> xs = []"
  by (induction sep xs rule: join.induct) auto

lemma join_butlast:
  "xs \<noteq> [] \<Longrightarrow> join sep xs = (if butlast xs = [] then last xs else join sep (butlast xs) @ sep @ last xs)"
  using join_snoc [of sep "butlast xs" "last xs"] by simp

(* lastIndexOf for a single character *)

lemma occurs_at_single: "occurs_at r [s] k \<longleftrightarrow> (k < length r \<and> r ! k = s)"
  by (cases "k < length r") (auto simp: occurs_at_def take_Suc_conv_app_nth hd_drop_conv_nth take_Suc)

lemma find_rev_upt_None: "find P (rev [0..<n]) = None \<longleftrightarrow> (\<forall>j<n. \<not> P j)"
  by (auto simp: find_None_iff)

lemma find_rev_upt_Some:
  "k < n \<Longrightarrow> P k \<Longrightarrow> (\<forall>j. k < j \<and> j < n \<longrightarrow> \<not> P j) \<Longrightarrow> find P (rev [0..<n]) = Some k"
proof (induction n)
  case 0
  then show ?case by simp
next
  case (Suc n)
  show ?case
  proof (cases "k = n")
    case True
    then show ?thesis using Suc.prems by simp
  next
    case False
    then have "k < n" using Suc.prems by simp
    moreover have "\<not> P n" using Suc.prems False by simp
    ultimately show ?thesis using Suc by simp
  qed
qed

lemma lastIndexOf_single:
  "lastIndexOf r [s] = (case find (occurs_at r [s]) (rev [0..<length r]) of
                          Some k \<Rightarrow> int k | None \<Rightarrow> - 1)"
proof (cases "r = []")
  case True
  then show ?thesis by (simp add: lastIndexOf_def)
next
  case False
  then have "Suc (length r - length [s]) = length r" by (cases r) auto
  then show ?thesis using False unfolding lastIndexOf_def by (simp del: upt_Suc)
qed

lemma lastIndexOf_single_none: "s \<notin> set r \<Longrightarrow> lastIndexOf r [s] = - 1"
proof -
  assume a: "s \<notin> set r"
  have "find (occurs_at r [s]) (rev [0..<length r]) = None"
    unfolding find_rev_upt_None using a by (auto simp: occurs_at_single)
  then show ?thesis by (simp add: lastIndexOf_single)
qed

lemma lastIndexOf_single_last:
  "s \<notin> set ys \<Longrightarrow> lastIndexOf (xs @ s # ys) [s] = int (length xs)"
proof -
  assume a: "s \<notin> set ys"
  let ?r = "xs @ s # ys"
  have "find (occurs_at ?r [s]) (rev [0..<length ?r]) = Some (length xs)"
  proof (rule find_rev_upt_Some)
    show "length xs < length ?r" by simp
    show "occurs_at ?r [s] (length xs)" by (simp add: occurs_at_single)
    show "\<forall>j. length xs < j \<and> j < length ?r \<longrightarrow> \<not> occurs_at ?r [s] j"
    proof (intro allI impI)
      fix j assume j: "length xs < j \<and> j < length ?r"
      then have "?r ! j = ys ! (j - length xs - 1)" by (simp add: nth_append nth_Cons')
      moreover have "j - length xs - 1 < length ys" using j by auto
      ultimately have "?r ! j \<in> set ys" by simp
      then show "\<not> occurs_at ?r [s] j" using a by (auto simp: occurs_at_single)
    qed
  qed
  then show ?thesis by (simp add: lastIndexOf_single)
qed

lemma foldl_segments_from:
  "foldl (resolve_segment allow) stack (segments_from sepc cur cs)
     = scan_segments allow sepc stack cur cs"
  by (induction cs arbitrary: stack cur) simp_all

lemma dots_of_1: "dots_of cur = 1 \<longleftrightarrow> cur = ''.''"
  by (cases cur) (auto simp: dots_of_def)

lemma dots_of_2: "dots_of cur = 2 \<longleftrightarrow> cur = ''..''"
proof (cases cur)
  case Nil
  then show ?thesis by (simp add: dots_of_def)
next
  case (Cons a as)
  then show ?thesis by (cases as) (auto simp: dots_of_def)
qed

lemma dots_of_snoc:
  "dots_of (cur @ [c]) =
     (if c = CHR ''.'' \<and> dots_of cur \<noteq> - 1 then dots_of cur + 1 else - 1)"
  by (auto simp: dots_of_def)

lemma charCodeAt_nth:
  "k < length r \<Longrightarrow> charCodeAt r (int k) = Some (of_char (r ! k))"
  by (simp add: charCodeAt_def)

lemma ends_with_dotdot:
  assumes "length seg = 2"
  shows "(charCodeAt (pre @ seg) (int (length (pre @ seg)) - 1) = Some CHAR_DOT \<and>
          charCodeAt (pre @ seg) (int (length (pre @ seg)) - 2) = Some CHAR_DOT)
         \<longleftrightarrow> seg = ''..''"
proof -
  obtain a b where seg: "seg = [a, b]"
    using assms by (cases seg; cases "tl seg") auto
  have 1: "int (length (pre @ seg)) - 1 = int (Suc (length pre))" by (simp add: seg)
  have 2: "int (length (pre @ seg)) - 2 = int (length pre)" by (simp add: seg)
  have c1: "charCodeAt (pre @ seg) (int (Suc (length pre))) = Some (of_char b)"
    by (subst charCodeAt_nth) (simp_all add: seg nth_append)
  have c2: "charCodeAt (pre @ seg) (int (length pre)) = Some (of_char a)"
    by (subst charCodeAt_nth) (simp_all add: seg nth_append)
  show ?thesis unfolding 1 2 c1 c2
    by (auto simp add: seg of_char_46)
qed

lemma join_ends_with_last:
  "stack \<noteq> [] \<Longrightarrow> \<exists>pre. join sep stack = pre @ last stack"
  using join_butlast [of stack sep] by (cases "butlast stack = []") auto

lemma ns_last_is_dotdot_iff:
  assumes "ns_rel s st stack"
  shows "ns_last_is_dotdot st \<longleftrightarrow> (stack \<noteq> [] \<and> last stack = ''..'')"
proof (cases "stack = []")
  case True
  then show ?thesis using assms by (simp add: ns_rel_def ns_last_is_dotdot_def)
next
  case False
  then obtain pre where pre: "res st = pre @ last stack"
    using assms join_ends_with_last [OF False, of "[s]"] by (auto simp: ns_rel_def)
  have l: "lastSegmentLength st = int (length (last stack))"
    using assms False by (simp add: ns_rel_def)
  show ?thesis
  proof (cases "length (last stack) = 2")
    case True
    then show ?thesis
      using False l ends_with_dotdot [OF True, of pre]
      by (auto simp add: ns_last_is_dotdot_def pre)
  next
    case ne: False
    then have "last stack \<noteq> ''..''" by auto
    then show ?thesis using ne l False by (simp add: ns_last_is_dotdot_def)
  qed
qed

lemma slice_0_prefix: "slice (xs @ ys) 0 (int (length xs)) = xs"
  by (simp add: slice_def Let_def)

lemma join_length_3:
  assumes "list_all (\<lambda>seg. seg \<noteq> [] \<and> s \<notin> set seg) stack" "butlast stack \<noteq> []"
  shows "length (join [s] stack) > 2"
proof -
  have ne: "stack \<noteq> []" using assms(2) by auto
  have "last stack \<in> set stack" using ne by simp
  then have l: "last stack \<noteq> []" using assms(1) by (auto simp: list_all_iff)
  have "last (butlast stack) \<in> set stack" using assms(2) by (meson in_set_butlastD last_in_set)
  then have "last (butlast stack) \<noteq> []" using assms(1) by (auto simp: list_all_iff)
  moreover obtain pre where "join [s] (butlast stack) = pre @ last (butlast stack)"
    using join_ends_with_last [OF assms(2)] by blast
  ultimately have "join [s] (butlast stack) \<noteq> []" by simp
  then have "length (join [s] (butlast stack)) \<ge> 1" by (simp add: Suc_leI)
  moreover have "length (last stack) \<ge> 1" using l by (simp add: Suc_leI)
  ultimately show ?thesis using join_butlast [OF ne, of "[s]"] assms(2) by simp
qed

lemma lastIndexOf_join:
  assumes "list_all (\<lambda>seg. seg \<noteq> [] \<and> s \<notin> set seg) stack" "stack \<noteq> []"
  shows "lastIndexOf (join [s] stack) [s] =
           (if butlast stack = [] then - 1 else int (length (join [s] (butlast stack))))"
proof -
  have "last stack \<in> set stack" using assms(2) by simp
  then have l: "s \<notin> set (last stack)" using assms(1) by (auto simp: list_all_iff)
  show ?thesis
  proof (cases "butlast stack = []")
    case True
    then show ?thesis using l join_butlast [OF assms(2), of "[s]"]
      by (simp add: lastIndexOf_single_none)
  next
    case False
    then show ?thesis using l join_butlast [OF assms(2), of "[s]"]
      by (simp add: lastIndexOf_single_last)
  qed
qed

lemma last_segment_length:
  assumes "list_all (\<lambda>seg. seg \<noteq> [] \<and> s \<notin> set seg) stack" "stack \<noteq> []"
  shows "int (length (join [s] stack)) - 1 - lastIndexOf (join [s] stack) [s]
           = int (length (last stack))"
  using lastIndexOf_join [OF assms] join_butlast [OF assms(2), of "[s]"]
  by (cases "butlast stack = []") simp_all

lemma list_all_butlast: "list_all P xs \<Longrightarrow> list_all P (butlast xs)"
  by (auto simp: list_all_iff dest: in_set_butlastD)

lemma body_separator:
  assumes rel: "ns_rel s st stack"
    and ls: "lastSlash st = i - 1 - int (length cur)"
    and dt: "dots st = dots_of cur"
    and sl: "slice path (lastSlash st + 1) i = cur"
    and sc: "s \<notin> set cur"
    and sep: "isSep code"
  shows "ns_rel s (normalizeString_body path allow [s] isSep i code st)
           (resolve_segment allow stack cur) \<and>
         lastSlash (normalizeString_body path allow [s] isSep i code st) = i \<and>
         dots (normalizeString_body path allow [s] isSep i code st) = 0"
proof -
  have res: "res st = join [s] stack"
    and lsl: "lastSegmentLength st = (if stack = [] then 0 else int (length (last stack)))"
    and all: "list_all (\<lambda>seg. seg \<noteq> [] \<and> s \<notin> set seg) stack"
    using rel by (simp_all add: ns_rel_def)
  have dd: "ns_last_is_dotdot st \<longleftrightarrow> (stack \<noteq> [] \<and> last stack = ''..'')"
    by (rule ns_last_is_dotdot_iff [OF rel])
  have all': "\<forall>x \<in> set stack. x \<noteq> []" using all by (auto simp: list_all_iff)
  have res_empty: "res st = [] \<longleftrightarrow> stack = []"
    unfolding res by (rule join_eq_Nil [OF all'])
  consider (empty) "cur = []" | (dot) "cur = ''.''" | (dotdot) "cur = ''..''"
    | (other) "cur \<noteq> [] \<and> cur \<noteq> ''.'' \<and> cur \<noteq> ''..''" by blast
  then show ?thesis
  proof cases
    case empty
    then have "lastSlash st = i - 1" using ls by simp
    then show ?thesis using rel empty sep
      by (simp add: normalizeString_body_def resolve_segment_def ns_rel_def)
  next
    case dot
    then have "dots st = 1" using dt dots_of_1 by simp
    then show ?thesis using rel dot sep
      by (simp add: normalizeString_body_def resolve_segment_def ns_rel_def)
  next
    case dotdot
    then have d2: "dots st = 2" using dt dots_of_2 by simp
    have nl: "lastSlash st \<noteq> i - 1" using ls dotdot by simp
    show ?thesis
    proof (cases "stack \<noteq> [] \<and> last stack \<noteq> ''..''")
      case False
      then have c: "ns_last_is_dotdot st \<or> res st = []" using dd res_empty by auto
      have r: "resolve_segment allow stack cur = (if allow then stack @ [''..''] else stack)"
        using False dotdot by (auto simp add: resolve_segment_def)
      have st': "normalizeString_body path allow [s] isSep i code st =
          (if allow then
             st\<lparr>res := res st @ (if length (res st) > 0 then [s] @ ''..'' else ''..''),
                lastSegmentLength := 2, lastSlash := i, dots := 0\<rparr>
           else st\<lparr>lastSlash := i, dots := 0\<rparr>)"
        using c d2 nl sep by (auto simp add: normalizeString_body_def)
      have sdot: "s \<noteq> CHR ''.''" using sc dotdot by auto
      show ?thesis unfolding st' r
        using rel res_empty sdot
        by (auto simp add: ns_rel_def join_snoc)
    next
      case True
      then have ne: "stack \<noteq> []" and nd: "\<not> ns_last_is_dotdot st" using dd by auto
      have r: "resolve_segment allow stack cur = butlast stack"
        using True dotdot by (simp add: resolve_segment_def)
      have allb: "list_all (\<lambda>seg. seg \<noteq> [] \<and> s \<notin> set seg) (butlast stack)"
        using all by (rule list_all_butlast)
      show ?thesis
      proof (cases "butlast stack = []")
        case single: True
        have li: "lastIndexOf (res st) [s] = - 1"
          unfolding res using lastIndexOf_join [OF all ne] single by simp
        have "res st \<noteq> []" using res_empty ne by simp
        then have st': "normalizeString_body path allow [s] isSep i code st =
            st\<lparr>res := [], lastSegmentLength := 0, lastSlash := i, dots := 0\<rparr>"
          using nd d2 nl sep li by (auto simp add: normalizeString_body_def Let_def)
        show ?thesis unfolding st' r using single by (simp add: ns_rel_def)
      next
        case multi: False
        have len: "length (res st) > 2" unfolding res by (rule join_length_3 [OF all multi])
        have li: "lastIndexOf (res st) [s] = int (length (join [s] (butlast stack)))"
          unfolding res using lastIndexOf_join [OF all ne] multi by simp
        have sl0: "slice (res st) 0 (int (length (join [s] (butlast stack))))
                     = join [s] (butlast stack)"
          unfolding res using join_butlast [OF ne, of "[s]"] multi
          by (simp add: slice_0_prefix)
        have st': "normalizeString_body path allow [s] isSep i code st =
            st\<lparr>res := join [s] (butlast stack),
               lastSegmentLength := int (length (join [s] (butlast stack))) - 1
                  - lastIndexOf (join [s] (butlast stack)) [s],
               lastSlash := i, dots := 0\<rparr>"
          using nd d2 nl sep li len sl0 by (simp add: normalizeString_body_def Let_def)
        show ?thesis unfolding st' r
          using multi allb last_segment_length [OF allb multi] by (simp add: ns_rel_def)
      qed
    qed
  next
    case other
    then have d1: "dots st \<noteq> 1" and d2: "dots st \<noteq> 2" using dt dots_of_1 dots_of_2 by auto
    have nl: "lastSlash st \<noteq> i - 1" using ls other by simp
    have r: "resolve_segment allow stack cur = stack @ [cur]"
      using other by (simp add: resolve_segment_def)
    have st': "normalizeString_body path allow [s] isSep i code st =
        st\<lparr>res := (if length (res st) > 0 then res st @ [s] @ cur else cur),
           lastSegmentLength := i - lastSlash st - 1, lastSlash := i, dots := 0\<rparr>"
      using d1 d2 nl sep sl by (simp add: normalizeString_body_def)
    show ?thesis unfolding st' r
      using rel res_empty other sc ls by (auto simp add: ns_rel_def join_snoc)
  qed
qed

lemma body_non_separator:
  assumes dt: "dots st = dots_of cur" and nsep: "\<not> isSep (Some (of_char c))"
  shows "normalizeString_body path allow sep isSep i (Some (of_char c)) st
           = st\<lparr>dots := dots_of (cur @ [c])\<rparr>"
  using assms by (simp add: normalizeString_body_def dots_of_snoc of_char_46)

lemma ns_rel_dots [simp]: "ns_rel s (st\<lparr>dots := d\<rparr>) stack = ns_rel s st stack"
  by (simp add: ns_rel_def)

lemma slice_take_drop:
  "a \<le> b \<Longrightarrow> b \<le> length path \<Longrightarrow>
   slice path (int a) (int b) = take (b - a) (drop a path)"
  by (simp add: slice_def Let_def min_def nat_diff_distrib')

lemma normalizeString_loop_end:
  "normalizeString_loop path a sep isSep (length path) code st =
     (if isSep code then res st
      else res (normalizeString_body path a sep isSep (int (length path))
                  (Some CHAR_FORWARD_SLASH) st))"
  by (simp add: normalizeString_loop.simps [of path a sep isSep "length path"]
      normalizeString_loop.simps [of path a sep isSep "Suc (length path)"])

lemma normalizeString_loop_step:
  "i < length path \<Longrightarrow>
   normalizeString_loop path a sep isSep i code st =
     normalizeString_loop path a sep isSep (Suc i) (charCodeAt path (int i))
       (normalizeString_body path a sep isSep (int i) (charCodeAt path (int i)) st)"
  by (simp add: normalizeString_loop.simps [of path a sep isSep i])

lemma normalizeString_loop_scan:
  assumes s: "char_is_separator isSep s" and slash: "isSep (Some CHAR_FORWARD_SLASH)"
  shows "i \<le> length path \<Longrightarrow> ns_rel s st stack \<Longrightarrow> length cur \<le> i \<Longrightarrow>
     cur = take (length cur) (drop (i - length cur) path) \<Longrightarrow>
     lastSlash st = int i - 1 - int (length cur) \<Longrightarrow>
     dots st = dots_of cur \<Longrightarrow>
     list_all (\<lambda>c. \<not> char_is_separator isSep c) cur \<Longrightarrow>
     (isSep code \<longrightarrow> cur = []) \<Longrightarrow>
     normalizeString_loop path allow [s] isSep i code st
       = join [s] (scan_segments allow (char_is_separator isSep) stack cur (drop i path))"
proof (induction "length path - i" arbitrary: i code st stack cur)
  case 0
  then have i: "i = length path" by simp
  have sc: "s \<notin> set cur" using "0.prems"(7) s by (auto simp: list_all_iff)
  have sl: "slice path (lastSlash st + 1) (int i) = cur"
  proof -
    have "lastSlash st + 1 = int (i - length cur)" using "0.prems"(3,5) by simp
    then show ?thesis
      using slice_take_drop [of "i - length cur" i path] "0.prems"(1,3,4) by simp
  qed
  show ?case
  proof (cases "isSep code")
    case True
    then have "cur = []" using "0.prems"(8) by simp
    then show ?thesis using True i "0.prems"(2)
      by (simp add: normalizeString_loop_end resolve_segment_def ns_rel_def)
  next
    case False
    have b: "ns_rel s (normalizeString_body path allow [s] isSep (int i)
                 (Some CHAR_FORWARD_SLASH) st) (resolve_segment allow stack cur)"
      using body_separator [where isSep = isSep and code = "Some CHAR_FORWARD_SLASH"
          and allow = allow, OF "0.prems"(2) "0.prems"(5) "0.prems"(6) sl sc slash]
      by simp
    have "normalizeString_loop path allow [s] isSep i code st
        = res (normalizeString_body path allow [s] isSep (int i) (Some CHAR_FORWARD_SLASH) st)"
      using False i by (simp add: normalizeString_loop_end)
    then show ?thesis using b i by (simp add: ns_rel_def)
  qed
next
  case (Suc n)
  then have i: "i < length path" by simp
  define c where "c = path ! i"
  have code: "charCodeAt path (int i) = Some (of_char c)"
    using i by (simp add: charCodeAt_def c_def)
  have dr: "drop i path = c # drop (Suc i) path"
    using i by (simp add: Cons_nth_drop_Suc c_def)
  have step: "normalizeString_loop path allow [s] isSep i code st
      = normalizeString_loop path allow [s] isSep (Suc i) (Some (of_char c))
          (normalizeString_body path allow [s] isSep (int i) (Some (of_char c)) st)"
    using i code by (simp add: normalizeString_loop_step)
  have n: "n = length path - Suc i" using Suc.hyps(2) by simp
  have sc: "s \<notin> set cur" using Suc.prems(7) s by (auto simp: list_all_iff)
  show ?case
  proof (cases "char_is_separator isSep c")
    case True
    then have sep: "isSep (Some (of_char c))" by (simp add: char_is_separator_def)
    have sl: "slice path (lastSlash st + 1) (int i) = cur"
    proof -
      have "lastSlash st + 1 = int (i - length cur)" using Suc.prems(3,5) by simp
      then show ?thesis
        using slice_take_drop [of "i - length cur" i path] Suc.prems(1,3,4) by simp
    qed
    let ?st' = "normalizeString_body path allow [s] isSep (int i) (Some (of_char c)) st"
    have b: "ns_rel s ?st' (resolve_segment allow stack cur) \<and> lastSlash ?st' = int i \<and>
        dots ?st' = 0"
      using body_separator [where isSep = isSep and code = "Some (of_char c)"
          and allow = allow, OF Suc.prems(2) Suc.prems(5) Suc.prems(6) sl sc sep]
      by simp
    have "normalizeString_loop path allow [s] isSep (Suc i) (Some (of_char c)) ?st'
        = join [s] (scan_segments allow (char_is_separator isSep)
            (resolve_segment allow stack cur) [] (drop (Suc i) path))"
      using b i by (intro Suc.hyps(1) [OF n]) (simp_all add: dots_of_def)
    then show ?thesis using step True dr by simp
  next
    case False
    then have nsep: "\<not> isSep (Some (of_char c))" by (simp add: char_is_separator_def)
    let ?st' = "st\<lparr>dots := dots_of (cur @ [c])\<rparr>"
    have body: "normalizeString_body path allow [s] isSep (int i) (Some (of_char c)) st = ?st'"
      by (rule body_non_separator [where isSep = isSep, OF Suc.prems(6) nsep])
    have cur': "cur @ [c] = take (length (cur @ [c])) (drop (Suc i - length (cur @ [c])) path)"
    proof -
      have "(drop (i - length cur) path) ! length cur = c"
        using i Suc.prems(3) by (simp add: c_def)
      moreover have "length cur < length (drop (i - length cur) path)"
        using i Suc.prems(3) by simp
      ultimately have "take (Suc (length cur)) (drop (i - length cur) path)
          = take (length cur) (drop (i - length cur) path) @ [c]"
        by (simp add: take_Suc_conv_app_nth)
      then show ?thesis using Suc.prems(3,4) by simp
    qed
    have "normalizeString_loop path allow [s] isSep (Suc i) (Some (of_char c)) ?st'
        = join [s] (scan_segments allow (char_is_separator isSep) stack (cur @ [c])
            (drop (Suc i) path))"
    proof (rule Suc.hyps(1) [OF n])
      show "Suc i \<le> length path" using i by simp
      show "ns_rel s ?st' stack" using Suc.prems(2) by simp
      show "length (cur @ [c]) \<le> Suc i" using Suc.prems(3) by simp
      show "cur @ [c] = take (length (cur @ [c])) (drop (Suc i - length (cur @ [c])) path)"
        by (rule cur')
      show "lastSlash ?st' = int (Suc i) - 1 - int (length (cur @ [c]))"
        using Suc.prems(5) by simp
      show "dots ?st' = dots_of (cur @ [c])" by simp
      show "list_all (\<lambda>c. \<not> char_is_separator isSep c) (cur @ [c])"
        using Suc.prems(7) False by simp
      show "isSep (Some (of_char c)) \<longrightarrow> cur @ [c] = []" using nsep by simp
    qed
    then show ?thesis using step body False dr by simp
  qed
qed

theorem normalizeString_resolves_segments:
  assumes "char_is_separator isSep s" and "isSep (Some CHAR_FORWARD_SLASH)"
  shows "normalizeString path allowAboveRoot [s] isSep
           = normalizeString_spec path allowAboveRoot [s] isSep"
proof -
  have "normalizeString_loop path allowAboveRoot [s] isSep 0 (Some 0)
          \<lparr>res = [], lastSegmentLength = 0, lastSlash = - 1, dots = 0\<rparr>
        = join [s] (scan_segments allowAboveRoot (char_is_separator isSep) [] [] (drop 0 path))"
    by (rule normalizeString_loop_scan [where isSep = isSep, OF assms])
      (simp_all add: ns_rel_def dots_of_def)
  then show ?thesis
    by (simp add: normalizeString_def normalizeString_spec_def segments_def foldl_segments_from)
qed

text \<open>
  C1, amended. For every path tail and every \<open>allowAboveRoot\<close>, \<open>normalizeString\<close>
  returns the tail with redundant separators collapsed and \<open>.\<close> segments removed, each
  \<open>..\<close> segment removing the real segment before it when there is one, and otherwise
  kept when \<open>allowAboveRoot\<close> holds and dropped when not, provided the separator is a
  single character that the classifier accepts and the classifier accepts the forward
  slash. Both uses in the two engines meet the proviso.
\<close>

theorem normalizeString_segments:
  "(char_is_separator isSep s \<and> isSep (Some CHAR_FORWARD_SLASH) \<longrightarrow>
      normalizeString path allowAboveRoot [s] isSep
        = normalizeString_spec path allowAboveRoot [s] isSep) \<and>
   normalizeString path allowAboveRoot ''/'' isPosixPathSeparator
     = normalizeString_spec path allowAboveRoot ''/'' isPosixPathSeparator \<and>
   normalizeString path allowAboveRoot [BSL] isPathSeparator
     = normalizeString_spec path allowAboveRoot [BSL] isPathSeparator"
proof (intro conjI impI)
  assume "char_is_separator isSep s \<and> isSep (Some CHAR_FORWARD_SLASH)"
  then show "normalizeString path allowAboveRoot [s] isSep
        = normalizeString_spec path allowAboveRoot [s] isSep"
    using normalizeString_resolves_segments [of isSep s path allowAboveRoot] by simp
next
  show "normalizeString path allowAboveRoot ''/'' isPosixPathSeparator
     = normalizeString_spec path allowAboveRoot ''/'' isPosixPathSeparator"
    by (rule normalizeString_resolves_segments)
      (simp_all add: char_is_separator_def isPosixPathSeparator_def)
next
  show "normalizeString path allowAboveRoot [BSL] isPathSeparator
     = normalizeString_spec path allowAboveRoot [BSL] isPathSeparator"
    by (rule normalizeString_resolves_segments)
      (simp_all add: char_is_separator_def isPathSeparator_def)
qed

theorem normalizeString_segments_witness:
  "normalizeString ''a/b/../../../c/./d//e/'' True ''/'' isPosixPathSeparator = ''../c/d/e'' \<and>
   normalizeString_spec ''a/b/../../../c/./d//e/'' True ''/'' isPosixPathSeparator = ''../c/d/e'' \<and>
   normalizeString ''a/b/../../../c/./d//e/'' False ''/'' isPosixPathSeparator = ''c/d/e'' \<and>
   normalizeString ''x-y-..-z'' False ''-'' (\<lambda>c. c = Some 45 \<or> c = Some 47) = ''x-z''"
proof -
  have 1: "normalizeString_spec ''a/b/../../../c/./d//e/'' True ''/'' isPosixPathSeparator
      = ''../c/d/e''" by code_simp
  have 2: "normalizeString_spec ''a/b/../../../c/./d//e/'' False ''/'' isPosixPathSeparator
      = ''c/d/e''" by code_simp
  have 3: "normalizeString_spec ''x-y-..-z'' False ''-'' (\<lambda>c. c = Some 45 \<or> c = Some 47)
      = ''x-z''" by code_simp
  have 4: "char_is_separator (\<lambda>c. c = Some 45 \<or> c = Some 47) (CHR ''-'')"
    by (simp add: char_is_separator_def)
  show ?thesis
    using normalizeString_segments [of isPosixPathSeparator "CHR ''/''"
        "''a/b/../../../c/./d//e/''" True]
      normalizeString_segments [of isPosixPathSeparator "CHR ''/''"
        "''a/b/../../../c/./d//e/''" False]
      normalizeString_segments [of "\<lambda>c. c = Some 45 \<or> c = Some 47" "CHR ''-''"
        "''x-y-..-z''" False]
      1 2 3 4
    by simp
qed

theorem normalizeString_segments_counterexample:
  "normalizeString ''a/b/..'' False ''b'' isPosixPathSeparator
     \<noteq> normalizeString_spec ''a/b/..'' False ''b'' isPosixPathSeparator \<and>
   normalizeString ''ab/c/..'' False [] isPosixPathSeparator
     \<noteq> normalizeString_spec ''ab/c/..'' False [] isPosixPathSeparator \<and>
   normalizeString (''a'' @ [BSL] @ ''b'') False [BSL] (\<lambda>c. c = Some CHAR_BACKWARD_SLASH)
     \<noteq> normalizeString_spec (''a'' @ [BSL] @ ''b'') False [BSL]
         (\<lambda>c. c = Some CHAR_BACKWARD_SLASH)"
proof -
  have 1: "normalizeString ''a/b/..'' False ''b'' isPosixPathSeparator = ''ab''" by code_simp
  have 2: "normalizeString_spec ''a/b/..'' False ''b'' isPosixPathSeparator = ''a''" by code_simp
  have 3: "normalizeString ''ab/c/..'' False [] isPosixPathSeparator = ''abc''" by code_simp
  have 4: "normalizeString_spec ''ab/c/..'' False [] isPosixPathSeparator = ''ab''" by code_simp
  have 5: "normalizeString (''a'' @ [BSL] @ ''b'') False [BSL]
      (\<lambda>c. c = Some CHAR_BACKWARD_SLASH) = ''a''" by code_simp
  have 6: "normalizeString_spec (''a'' @ [BSL] @ ''b'') False [BSL]
      (\<lambda>c. c = Some CHAR_BACKWARD_SLASH) = ''a'' @ [BSL] @ ''b''" by code_simp
  show ?thesis unfolding 1 2 3 4 5 6 by simp
qed

subsection \<open>normalize is idempotent\<close>

lemma normal_stack_Nil [simp]: "normal_stack allow []"
  by (simp add: normal_stack_def)

lemma normal_stack_snoc:
  "normal_stack allow (xs @ [x]) =
     (normal_stack allow xs \<and>
      (if x = ''..'' then allow \<and> (xs = [] \<or> last xs = ''..'') else x \<noteq> [] \<and> x \<noteq> ''.''))"
  by (simp add: normal_stack_def hd_rev)

lemma normal_stack_single:
  "normal_stack allow [x] = (if x = ''..'' then allow else x \<noteq> [] \<and> x \<noteq> ''.'')"
  using normal_stack_snoc [of allow "[]" x] by simp

lemma normal_stack_butlast: "normal_stack allow xs \<Longrightarrow> normal_stack allow (butlast xs)"
  by (cases xs rule: rev_cases) (simp_all add: normal_stack_snoc)

lemma resolve_segment_normal:
  "normal_stack allow stack \<Longrightarrow> normal_stack allow (resolve_segment allow stack seg)"
  by (auto simp: resolve_segment_def normal_stack_snoc normal_stack_butlast normal_stack_single)

lemma foldl_resolve_normal:
  "normal_stack allow stack \<Longrightarrow>
   normal_stack allow (foldl (resolve_segment allow) stack segs)"
  by (induction segs arbitrary: stack) (simp_all add: resolve_segment_normal)

lemma resolve_normal_snoc:
  "normal_stack allow (xs @ [x]) \<Longrightarrow> resolve_segment allow xs x = xs @ [x]"
  by (auto simp: resolve_segment_def normal_stack_snoc split: if_splits)

lemma foldl_resolve_fixed:
  "normal_stack allow stack \<Longrightarrow> foldl (resolve_segment allow) [] stack = stack"
proof (induction stack rule: rev_induct)
  case Nil
  show ?case by simp
next
  case (snoc x xs)
  then have "normal_stack allow xs" by (simp add: normal_stack_snoc)
  then show ?case using snoc by (simp add: resolve_normal_snoc)
qed

lemma resolve_segment_empty [simp]: "resolve_segment allow stack [] = stack"
  by (simp add: resolve_segment_def)

lemma normal_stack_nonempty: "normal_stack allow stack \<Longrightarrow> \<forall>x \<in> set stack. x \<noteq> []"
proof (induction stack rule: rev_induct)
  case Nil
  show ?case by simp
next
  case (snoc x xs)
  then show ?case by (auto simp: normal_stack_snoc split: if_splits)
qed

(* separator-free segments *)

lemma resolve_segment_set:
  "set (resolve_segment allow stack seg) \<subseteq> insert seg (set stack)"
  by (auto simp: resolve_segment_def dest: in_set_butlastD)

lemma foldl_resolve_set:
  "set (foldl (resolve_segment allow) stack segs) \<subseteq> set stack \<union> set segs"
proof (induction segs arbitrary: stack)
  case Nil
  show ?case by simp
next
  case (Cons a segs)
  show ?case using Cons [of "resolve_segment allow stack a"] resolve_segment_set [of allow stack a]
    by auto
qed

lemma segments_from_free:
  "list_all (\<lambda>c. \<not> sepc c) cur \<Longrightarrow>
   \<forall>seg \<in> set (segments_from sepc cur xs). list_all (\<lambda>c. \<not> sepc c) seg"
proof (induction xs arbitrary: cur)
  case Nil
  then show ?case by simp
next
  case (Cons a xs)
  show ?case
  proof (cases "sepc a")
    case True
    then show ?thesis using Cons.IH [of "[]"] Cons.prems by simp
  next
    case False
    then show ?thesis using Cons.IH [of "cur @ [a]"] Cons.prems by simp
  qed
qed

lemma segments_free: "\<forall>seg \<in> set (segments sepc xs). list_all (\<lambda>c. \<not> sepc c) seg"
  unfolding segments_def by (rule segments_from_free) simp

lemma segments_from_cur:
  "segments_from sepc cur xs = (cur @ hd (segments_from sepc [] xs)) # tl (segments_from sepc [] xs)"
proof (induction xs arbitrary: cur)
  case Nil
  show ?case by simp
next
  case (Cons c xs)
  show ?case using Cons [of "cur @ [c]"] Cons [of "[c]"] by simp
qed

lemma segments_from_snoc_sep:
  "sepc c \<Longrightarrow> segments_from sepc cur (xs @ [c]) = segments_from sepc cur xs @ [[]]"
  by (induction xs arbitrary: cur) simp_all

lemma segments_free_word:
  "list_all (\<lambda>c. \<not> sepc c) seg \<Longrightarrow> segments_from sepc cur seg = [cur @ seg]"
  by (induction seg arbitrary: cur) simp_all

lemma segments_free_prefix:
  "list_all (\<lambda>c. \<not> sepc c) seg \<Longrightarrow> sepc c \<Longrightarrow>
   segments_from sepc cur (seg @ c # rest) = (cur @ seg) # segments_from sepc [] rest"
  by (induction seg arbitrary: cur) simp_all

lemma segments_join:
  assumes "sepc s"
  shows "stack \<noteq> [] \<Longrightarrow> \<forall>seg \<in> set stack. list_all (\<lambda>c. \<not> sepc c) seg \<Longrightarrow>
         segments sepc (join [s] stack) = stack"
proof (induction "[s]" stack rule: join.induct)
  case 1
  then show ?case by simp
next
  case (2 x)
  then show ?case by (simp add: segments_def segments_free_word)
next
  case (3 x y ys)
  then show ?case using assms
    by (simp add: segments_def segments_free_prefix)
qed

lemma spec_kept: "normalizeString_spec path allow sp isSep = join sp (kept_segments path allow isSep)"
  by (simp add: normalizeString_spec_def kept_segments_def)

lemma kept_normal: "normal_stack allow (kept_segments path allow isSep)"
  unfolding kept_segments_def by (rule foldl_resolve_normal) simp

lemma kept_free:
  "\<forall>seg \<in> set (kept_segments path allow isSep). list_all (\<lambda>c. \<not> char_is_separator isSep c) seg"
  using foldl_resolve_set [of allow "[]" "segments (char_is_separator isSep) path"]
    segments_free [of "char_is_separator isSep" path]
  by (auto simp: kept_segments_def)

lemma kept_nonempty: "\<forall>seg \<in> set (kept_segments path allow isSep). seg \<noteq> []"
  by (rule normal_stack_nonempty [OF kept_normal])

lemma kept_lead:
  "char_is_separator isSep c \<Longrightarrow>
   kept_segments (c # xs) allow isSep = kept_segments xs allow isSep"
  by (simp add: kept_segments_def segments_def)

lemma kept_trail:
  "char_is_separator isSep c \<Longrightarrow>
   kept_segments (xs @ [c]) allow isSep = kept_segments xs allow isSep"
  by (simp add: kept_segments_def segments_def segments_from_snoc_sep)

lemma kept_join:
  assumes "char_is_separator isSep s" "normal_stack allow stack" "stack \<noteq> []"
    "\<forall>seg \<in> set stack. list_all (\<lambda>c. \<not> char_is_separator isSep c) seg"
  shows "kept_segments (join [s] stack) allow isSep = stack"
  using segments_join [OF assms(1,3,4)] foldl_resolve_fixed [OF assms(2)]
  by (simp add: kept_segments_def)

lemma kept_Nil [simp]: "kept_segments [] allow isSep = []"
  by (simp add: kept_segments_def segments_def)

lemma hd_join: "stack \<noteq> [] \<Longrightarrow> hd stack \<noteq> [] \<Longrightarrow> hd (join sp stack) = hd (hd stack)"
  by (induction sp stack rule: join.induct) auto

lemma last_join:
  "stack \<noteq> [] \<Longrightarrow> last stack \<noteq> [] \<Longrightarrow> last (join sp stack) = last (last stack)"
  using join_ends_with_last [of stack sp] by auto

lemma join_nonempty: "stack \<noteq> [] \<Longrightarrow> \<forall>seg \<in> set stack. seg \<noteq> [] \<Longrightarrow> join sp stack \<noteq> []"
  by (induction sp stack rule: join.induct) auto

lemma last_is_slash:
  "p \<noteq> [] \<Longrightarrow>
   charCodeAt p (int (length p) - 1) = Some CHAR_FORWARD_SLASH \<longleftrightarrow> last p = CHR ''/''"
  by (cases p rule: rev_cases) (simp_all add: charCodeAt_def of_char_47)

lemma posix_separator: "char_is_separator isPosixPathSeparator c \<longleftrightarrow> c = CHR ''/''"
  by (simp add: char_is_separator_def isPosixPathSeparator_def of_char_47)

lemma posix_normalizeString_kept:
  "normalizeString p allow ''/'' isPosixPathSeparator
     = join ''/'' (kept_segments p allow isPosixPathSeparator)"
  using normalizeString_resolves_segments [of isPosixPathSeparator "CHR ''/''" p allow]
  by (simp add: spec_kept char_is_separator_def isPosixPathSeparator_def)

lemma join_kept_Nil:
  "join sp (kept_segments p allow isSep) = [] \<longleftrightarrow> kept_segments p allow isSep = []"
  by (rule join_eq_Nil [OF kept_nonempty])

lemma posNormalize_string_absolute:
  assumes "p \<noteq> []" "hd p = CHR ''/''"
  shows "posNormalize_string p =
     (if kept_segments p False isPosixPathSeparator = [] then ''/''
      else ''/'' @ join ''/'' (kept_segments p False isPosixPathSeparator) @
           (if last p = CHR ''/'' then ''/'' else []))"
  using assms
  by (simp add: posNormalize_string_def Let_def first_is_slash last_is_slash
      posix_normalizeString_kept join_kept_Nil)

lemma posNormalize_string_relative:
  assumes "p \<noteq> []" "hd p \<noteq> CHR ''/''"
  shows "posNormalize_string p =
     (if kept_segments p True isPosixPathSeparator = [] then
        (if last p = CHR ''/'' then ''./'' else ''.'')
      else join ''/'' (kept_segments p True isPosixPathSeparator) @
           (if last p = CHR ''/'' then ''/'' else []))"
  using assms
  by (simp add: posNormalize_string_def Let_def first_is_slash last_is_slash
      posix_normalizeString_kept join_kept_Nil)

lemma join_free_ends:
  assumes ne: "stack \<noteq> []" and nonempty: "\<forall>seg \<in> set stack. seg \<noteq> []"
    and free: "\<forall>seg \<in> set stack. list_all (\<lambda>c. \<not> sepc c) seg"
  shows "\<not> sepc (hd (join sp stack)) \<and> \<not> sepc (last (join sp stack))"
proof -
  have m: "hd stack \<in> set stack" "last stack \<in> set stack" using ne by simp_all
  have h: "hd stack \<noteq> []" and l: "last stack \<noteq> []" using nonempty m by blast+
  have "hd (hd stack) \<in> set (hd stack)" "last (last stack) \<in> set (last stack)"
    using h l by simp_all
  moreover have "list_all (\<lambda>c. \<not> sepc c) (hd stack)" "list_all (\<lambda>c. \<not> sepc c) (last stack)"
    using free m by blast+
  ultimately show ?thesis
    using hd_join [OF ne h, of sp] last_join [OF ne l, of sp] by (auto simp: list_all_iff)
qed

lemma posNormalize_string_fixed:
  assumes normal: "normal_stack (\<not> isAbs) stack" and ne: "stack \<noteq> []"
    and free: "\<forall>seg \<in> set stack. list_all (\<lambda>c. \<not> char_is_separator isPosixPathSeparator c) seg"
  shows "posNormalize_string
           ((if isAbs then ''/'' else []) @ join ''/'' stack @ (if trail then ''/'' else []))
         = (if isAbs then ''/'' else []) @ join ''/'' stack @ (if trail then ''/'' else [])"
proof -
  let ?t = "join ''/'' stack"
  have nonempty: "\<forall>seg \<in> set stack. seg \<noteq> []" by (rule normal_stack_nonempty [OF normal])
  have t: "?t \<noteq> []" by (rule join_nonempty [OF ne nonempty])
  have ends: "hd ?t \<noteq> CHR ''/''" "last ?t \<noteq> CHR ''/''"
    using join_free_ends [OF ne nonempty free, of "''/''"] by (simp_all add: posix_separator)
  have kj: "kept_segments ?t (\<not> isAbs) isPosixPathSeparator = stack"
    by (rule kept_join [OF _ normal ne free]) (simp add: posix_separator)
  show ?thesis
  proof (cases isAbs)
    case True
    then have kj': "kept_segments ?t False isPosixPathSeparator = stack" using kj by simp
    show ?thesis
    proof (cases trail)
      case tr: True
      have "kept_segments (CHR ''/'' # ?t @ ''/'') False isPosixPathSeparator = stack"
        using kj' by (simp add: kept_lead kept_trail posix_separator)
      then show ?thesis using True tr ne
        by (simp add: posNormalize_string_absolute)
    next
      case tr: False
      have "kept_segments (CHR ''/'' # ?t) False isPosixPathSeparator = stack"
        using kj' by (simp add: kept_lead posix_separator)
      then show ?thesis using True tr ne t ends
        by (simp add: posNormalize_string_absolute)
    qed
  next
    case False
    then have kj': "kept_segments ?t True isPosixPathSeparator = stack" using kj by simp
    show ?thesis
    proof (cases trail)
      case tr: True
      have "kept_segments (?t @ ''/'') True isPosixPathSeparator = stack"
        using kj' by (simp add: kept_trail posix_separator)
      then show ?thesis using False tr ne t ends
        by (simp add: posNormalize_string_relative hd_append)
    next
      case tr: False
      show ?thesis using False tr ne t ends kj'
        by (simp add: posNormalize_string_relative)
    qed
  qed
qed

lemma posNormalize_string_idempotent:
  "posNormalize_string (posNormalize_string p) = posNormalize_string p"
proof (cases "p = []")
  case True
  have "posNormalize_string ''.'' = ''.''" by code_simp
  then show ?thesis using True by (simp add: posNormalize_string_def)
next
  case False
  have c: "posNormalize_string ''/'' = ''/''" "posNormalize_string ''./'' = ''./''"
    "posNormalize_string ''.'' = ''.''" by code_simp+
  show ?thesis
  proof (cases "hd p = CHR ''/''")
    case True
    let ?stack = "kept_segments p False isPosixPathSeparator"
    show ?thesis
    proof (cases "?stack = []")
      case e: True
      then show ?thesis using c posNormalize_string_absolute [OF False True] by simp
    next
      case ne: False
      have "posNormalize_string ((if True then ''/'' else []) @ join ''/'' ?stack @
              (if last p = CHR ''/'' then ''/'' else []))
          = (if True then ''/'' else []) @ join ''/'' ?stack @
              (if last p = CHR ''/'' then ''/'' else [])"
        by (rule posNormalize_string_fixed [OF _ ne kept_free]) (simp add: kept_normal)
      then show ?thesis using ne posNormalize_string_absolute [OF False True] by simp
    qed
  next
    case rel: False
    let ?stack = "kept_segments p True isPosixPathSeparator"
    show ?thesis
    proof (cases "?stack = []")
      case e: True
      then show ?thesis using c posNormalize_string_relative [OF False rel] by simp
    next
      case ne: False
      have "posNormalize_string ((if False then ''/'' else []) @ join ''/'' ?stack @
              (if last p = CHR ''/'' then ''/'' else []))
          = (if False then ''/'' else []) @ join ''/'' ?stack @
              (if last p = CHR ''/'' then ''/'' else [])"
        by (rule posNormalize_string_fixed [OF _ ne kept_free]) (simp add: kept_normal)
      then show ?thesis using ne posNormalize_string_relative [OF False rel] by simp
    qed
  qed
qed

lemma windows_separator: "char_is_separator isPathSeparator c \<longleftrightarrow> wsep c"
  by (simp add: char_is_separator_def isPathSeparator_def of_char_47 of_char_92 wsep_def)

lemma isPathSeparator_of_char [simp]: "isPathSeparator (Some (of_char c)) \<longleftrightarrow> wsep c"
  by (simp add: isPathSeparator_def of_char_47 of_char_92 wsep_def)

lemma isPathSeparator_None [simp]: "\<not> isPathSeparator None"
  by (simp add: isPathSeparator_def)

lemma wsep_BSL [simp]: "wsep BSL" by (simp add: wsep_def)

lemma charCodeAt_int:
  "charCodeAt s (int k) = (if k < length s then Some (of_char (s ! k)) else None)"
  by (simp add: charCodeAt_def)

lemma charCodeAt_int1:
  "charCodeAt s (1 + int k) = (if Suc k < length s then Some (of_char (s ! Suc k)) else None)"
  using charCodeAt_int [of s "Suc k"] by simp

lemma skip_non_separators_append:
  assumes "list_all (\<lambda>c. \<not> wsep c) xs" "rest = [] \<or> wsep (hd rest)"
  shows "skip_non_separators (pre @ xs @ rest) (length pre) = length pre + length xs"
  using assms
proof (induction xs arbitrary: pre)
  case Nil
  show ?case
  proof (cases rest)
    case Nil
    then show ?thesis by (simp add: skip_non_separators.simps [of pre])
  next
    case (Cons c cs)
    then have "wsep c" using Nil.prems by simp
    then show ?thesis using Cons
      by (simp add: skip_non_separators.simps [of "pre @ c # cs"] charCodeAt_def)
  qed
next
  case (Cons x xs)
  have "skip_non_separators (pre @ (x # xs) @ rest) (length pre)
      = skip_non_separators ((pre @ [x]) @ xs @ rest) (length (pre @ [x]))"
    using Cons.prems
    by (simp add: skip_non_separators.simps [of "pre @ x # xs @ rest" "length pre"] charCodeAt_def)
  also have "\<dots> = length (pre @ [x]) + length xs"
    using Cons.prems by (intro Cons.IH) simp_all
  finally show ?case by simp
qed

lemma skip_separators_one:
  assumes "wsep c" "rest = [] \<or> \<not> wsep (hd rest)"
  shows "skip_separators (pre @ c # rest) (length pre) = Suc (length pre)"
proof -
  have 1: "skip_separators (pre @ c # rest) (length pre)
      = skip_separators (pre @ c # rest) (Suc (length pre))"
    using assms(1)
    by (simp add: skip_separators.simps [of "pre @ c # rest" "length pre"] charCodeAt_def)
  have 2: "skip_separators (pre @ c # rest) (Suc (length pre)) = Suc (length pre)"
  proof (cases rest)
    case Nil
    then show ?thesis by (simp add: skip_separators.simps [of "pre @ [c]" "Suc (length pre)"])
  next
    case (Cons d ds)
    then have "\<not> wsep d" using assms(2) by simp
    then show ?thesis using Cons
      by (simp add: skip_separators.simps [of "pre @ c # d # ds" "Suc (length pre)"]
          charCodeAt_int1 nth_append)
  qed
  show ?thesis using 1 2 by simp
qed

lemma skip_non_separators_bounds:
  "j \<le> length p \<Longrightarrow>
   j \<le> skip_non_separators p j \<and> skip_non_separators p j \<le> length p \<and>
   list_all (\<lambda>c. \<not> wsep c) (take (skip_non_separators p j - j) (drop j p))"
proof (induction p j rule: skip_non_separators.induct)
  case (1 path j)
  show ?case
  proof (cases "j < length path \<and> \<not> isPathSeparator (charCodeAt path (int j))")
    case True
    then have IH: "Suc j \<le> skip_non_separators path (Suc j) \<and>
        skip_non_separators path (Suc j) \<le> length path \<and>
        list_all (\<lambda>c. \<not> wsep c)
          (take (skip_non_separators path (Suc j) - Suc j) (drop (Suc j) path))"
      using 1 by simp
    have eq: "skip_non_separators path j = skip_non_separators path (Suc j)"
      using True by (simp add: skip_non_separators.simps [of path j])
    have c: "\<not> wsep (path ! j)" using True by (auto simp add: charCodeAt_int)
    have d: "drop j path = path ! j # drop (Suc j) path"
      using True by (simp add: Cons_nth_drop_Suc)
    have "Suc j \<le> skip_non_separators path (Suc j)" using IH by blast
    then have "skip_non_separators path (Suc j) - j
        = Suc (skip_non_separators path (Suc j) - Suc j)"
      by arith
    then show ?thesis using IH c unfolding eq d by simp
  next
    case False
    have "skip_non_separators path j = j"
      by (simp only: skip_non_separators.simps [of path j] False if_False)
    then show ?thesis using 1 by simp
  qed
qed

lemma skip_non_separators_stop:
  "skip_non_separators p j < length p \<Longrightarrow> wsep (p ! skip_non_separators p j)"
proof (induction p j rule: skip_non_separators.induct)
  case (1 path j)
  show ?case
  proof (cases "j < length path \<and> \<not> isPathSeparator (charCodeAt path (int j))")
    case True
    then have eq: "skip_non_separators path j = skip_non_separators path (Suc j)"
      by (simp add: skip_non_separators.simps [of path j])
    show ?thesis using 1 True unfolding eq by simp
  next
    case False
    have eq: "skip_non_separators path j = j"
      by (simp only: skip_non_separators.simps [of path j] False if_False)
    show ?thesis using 1 False unfolding eq by (auto simp add: charCodeAt_int)
  qed
qed

lemma skip_separators_bounds:
  "j \<le> length p \<Longrightarrow> j \<le> skip_separators p j \<and> skip_separators p j \<le> length p"
proof (induction p j rule: skip_separators.induct)
  case (1 path j)
  show ?case
  proof (cases "j < length path \<and> isPathSeparator (charCodeAt path (int j))")
    case True
    then have eq: "skip_separators path j = skip_separators path (Suc j)"
      by (simp add: skip_separators.simps [of path j])
    show ?thesis using 1 True unfolding eq by simp
  next
    case False
    have "skip_separators path j = j"
      by (simp only: skip_separators.simps [of path j] False if_False)
    then show ?thesis using 1 by simp
  qed
qed

lemma unc_parts:
  assumes len: "2 \<le> length p"
    and j: "j = skip_non_separators p 2" "j < length p" "j \<noteq> 2"
    and j2: "j2 = skip_separators p j" "j2 < length p"
    and j3: "j3 = skip_non_separators p j2" "j3 \<noteq> j2"
  shows "unc_device (BSL # BSL # slice p 2 (int j) @ BSL # slice p (int j2) (int j3))"
proof -
  have b1: "2 \<le> j \<and> j \<le> length p \<and> list_all (\<lambda>c. \<not> wsep c) (take (j - 2) (drop 2 p))"
    using skip_non_separators_bounds [OF len] j(1) by simp
  have jj2: "j \<le> j2" using skip_separators_bounds [of j p] j b1 j2 by simp
  have b3: "j2 \<le> j3 \<and> j3 \<le> length p \<and> list_all (\<lambda>c. \<not> wsep c) (take (j3 - j2) (drop j2 p))"
    using skip_non_separators_bounds [of j2 p] j2 j3(1) by simp
  have f: "slice p 2 (int j) = take (j - 2) (drop 2 p)"
    using slice_take_drop [of 2 j p] b1 by simp
  have g: "slice p (int j2) (int j3) = take (j3 - j2) (drop j2 p)"
    using slice_take_drop [of j2 j3 p] b3 by simp
  have fne: "take (j - 2) (drop 2 p) \<noteq> []" using b1 j by simp
  have gne: "take (j3 - j2) (drop j2 p) \<noteq> []" using b3 j3 j2 by simp
  show ?thesis unfolding unc_device_def f g using b1 b3 fne gne by blast
qed

lemma winNormalize_root_Inl:
  assumes "2 \<le> length p" "winNormalize_root p = Inl r"
  shows "\<exists>d. unc_device d \<and> r = d @ [BSL]"
proof -
  define j where "j = skip_non_separators p 2"
  define j2 where "j2 = skip_separators p j"
  define j3 where "j3 = skip_non_separators p j2"
  have c: "j < length p \<and> j \<noteq> 2 \<and> j2 < length p \<and> j2 \<noteq> j \<and> j3 = length p \<and>
      r = [BSL, BSL] @ slice p 2 (int j) @ [BSL] @ slice_from p (int j2) @ [BSL]"
    using assms(2) unfolding winNormalize_root_def j_def j2_def j3_def
    by (auto simp: Let_def split: if_splits)
  then have "j3 \<noteq> j2" by simp
  then have "unc_device (BSL # BSL # slice p 2 (int j) @ BSL # slice p (int j2) (int j3))"
    using unc_parts [OF assms(1) j_def _ _ j2_def _ j3_def] c by simp
  moreover have "slice_from p (int j2) = slice p (int j2) (int j3)"
    using c by (simp add: slice_from_def)
  ultimately show ?thesis using c by auto
qed

lemma take_2: "2 \<le> length p \<Longrightarrow> slice p 0 2 = [p ! 0, p ! 1]"
  by (cases p; cases "tl p") (auto simp: slice_def Let_def)

lemma winNormalize_root_device:
  assumes "2 \<le> length p" "winNormalize_root p = Inr (re, Some d, ab)"
  shows "(unc_device d \<and> ab) \<or> (drive_device d \<and> ((ab \<and> re = 3) \<or> (\<not> ab \<and> re = 2)))"
proof (cases "isPathSeparator (charCodeAt p 0)")
  case True
  define j where "j = skip_non_separators p 2"
  define j2 where "j2 = skip_separators p j"
  define j3 where "j3 = skip_non_separators p j2"
  have c: "j < length p \<and> j \<noteq> 2 \<and> j2 < length p \<and> j2 \<noteq> j \<and> j3 \<noteq> j2 \<and> ab \<and>
      d = [BSL, BSL] @ slice p 2 (int j) @ [BSL] @ slice p (int j2) (int j3)"
    using assms(2) True unfolding winNormalize_root_def j_def j2_def j3_def
    by (auto simp: Let_def split: if_splits)
  then have "unc_device (BSL # BSL # slice p 2 (int j) @ BSL # slice p (int j2) (int j3))"
    using unc_parts [OF assms(1) j_def _ _ j2_def _ j3_def] by simp
  then show ?thesis using c by simp
next
  case False
  then have c: "isWindowsDeviceRoot (charCodeAt p 0) \<and> charCodeAt p 1 = Some CHAR_COLON \<and>
      d = slice p 0 2 \<and> ((ab \<and> re = 3) \<or> (\<not> ab \<and> re = 2))"
    using assms(2) unfolding winNormalize_root_def
    by (auto simp: Let_def split: if_splits)
  have p0: "charCodeAt p 0 = Some (of_char (p ! 0))" "charCodeAt p 1 = Some (of_char (p ! 1))"
    using assms(1) by (auto simp add: charCodeAt_def)
  have "p ! 1 = CHR '':''" using c p0 by (simp add: of_char_58)
  then have "drive_device d" using c p0 take_2 [OF assms(1)]
    by (auto simp: drive_device_def)
  then show ?thesis using c by simp
qed

lemma winNormalize_root_relative:
  assumes "winNormalize_root p = Inr (re, None, False)"
  shows "re = 0 \<and> \<not> has_drive_prefix p"
  using assms unfolding winNormalize_root_def has_drive_prefix_def
  by (auto simp: Let_def split: if_splits)

lemma winNormalize_root_absolute:
  assumes "winNormalize_root p = Inr (re, None, True)"
  shows "re \<le> 1"
  using assms unfolding winNormalize_root_def
  by (auto simp: Let_def split: if_splits)

lemma windows_normalizeString_kept:
  "normalizeString p allow [BSL] isPathSeparator
     = join [BSL] (kept_segments p allow isPathSeparator)"
  using normalizeString_resolves_segments [of isPathSeparator BSL p allow]
  by (simp add: spec_kept windows_separator isPathSeparator_def)

lemma last_is_separator:
  "p \<noteq> [] \<Longrightarrow> isPathSeparator (charCodeAt p (int (length p) - 1)) \<longleftrightarrow> wsep (last p)"
  by (cases p rule: rev_cases) (simp_all add: charCodeAt_def)

lemma slice_from_drop: "k \<le> length p \<Longrightarrow> slice_from p (int k) = drop k p"
  by (simp add: slice_from_def slice_def Let_def)

lemma winNormalize_string_unfold:
  assumes len: "2 \<le> length p" and root: "winNormalize_root p = Inr (re, dev, ab)"
  shows "winNormalize_string p =
     (let tail0 = (if re < length p
                   then normalizeString (slice_from p (int re)) (\<not> ab) [BSL] isPathSeparator
                   else []);
          tail1 = (if length tail0 = 0 \<and> \<not> ab then ''.'' else tail0);
          tail = (if length tail1 > 0 \<and> isPathSeparator (charCodeAt p (int (length p) - 1))
                  then tail1 @ [BSL] else tail1)
      in case dev of
           None \<Rightarrow> if ab then [BSL] @ tail else tail
         | Some d \<Rightarrow> if ab then d @ [BSL] @ tail else d @ tail)"
proof -
  have ne: "length p \<noteq> 0" "length p \<noteq> 1" using len by auto
  show ?thesis
    unfolding winNormalize_string_def
    by (simp only: Let_def ne if_False root sum.case prod.case)
qed

lemma winNormalize_string_general:
  assumes len: "2 \<le> length p" and root: "winNormalize_root p = Inr (re, dev, ab)"
    and re: "re \<le> length p"
  shows "winNormalize_string p =
           win_assemble dev ab (kept_segments (drop re p) (\<not> ab) isPathSeparator)
             (wsep (last p))"
proof -
  have ne: "p \<noteq> []" using len by auto
  let ?stack = "kept_segments (drop re p) (\<not> ab) isPathSeparator"
  have tail0: "(if re < length p
                then normalizeString (slice_from p (int re)) (\<not> ab) [BSL] isPathSeparator
                else []) = join [BSL] ?stack"
    using re by (auto simp: windows_normalizeString_kept slice_from_drop)
  have e: "length (join [BSL] ?stack) = 0 \<longleftrightarrow> ?stack = []"
    using join_kept_Nil [of "[BSL]" "drop re p" "\<not> ab" isPathSeparator] by simp
  have t1: "(if length (join [BSL] ?stack) = 0 \<and> \<not> ab then ''.'' else join [BSL] ?stack)
      = win_tail ab ?stack"
    unfolding e win_tail_def by simp
  have l: "isPathSeparator (charCodeAt p (int (length p) - 1)) = wsep (last p)"
    by (rule last_is_separator [OF ne])
  have g: "(0 < length (win_tail ab ?stack)) = (win_tail ab ?stack \<noteq> [])" by simp
  show ?thesis
    unfolding winNormalize_string_unfold [OF len root] Let_def tail0 t1 l g win_assemble_def
    by (cases dev; cases ab) simp_all
qed

lemma isPathSeparator_codes [simp]:
  "isPathSeparator (Some CHAR_BACKWARD_SLASH)" "isPathSeparator (Some CHAR_FORWARD_SLASH)"
  by (simp_all add: isPathSeparator_def)

lemma winNormalize_root_bound:
  assumes "2 \<le> length p" "winNormalize_root p = Inr (re, dev, ab)"
  shows "re \<le> length p"
proof -
  define j where "j = skip_non_separators p 2"
  define j2 where "j2 = skip_separators p j"
  define j3 where "j3 = skip_non_separators p j2"
  have "re \<le> 3 \<and> (re = 3 \<longrightarrow> 2 < length p) \<or> (re = j3 \<and> j2 < length p)"
    using assms(2) unfolding winNormalize_root_def j_def j2_def j3_def
    by (auto simp: Let_def split: if_splits)
  moreover have "j2 < length p \<Longrightarrow> j3 \<le> length p"
    using skip_non_separators_bounds [of j2 p] j3_def by simp
  ultimately show ?thesis using assms(1) by auto
qed

lemma winNormalize_root_unc:
  assumes "unc_device d"
  shows "winNormalize_root (d @ BSL # rest) = Inr (length d, Some d, True)"
proof -
  obtain f g where fg: "f \<noteq> []" "g \<noteq> []" "list_all (\<lambda>c. \<not> wsep c) f"
      "list_all (\<lambda>c. \<not> wsep c) g" and d: "d = BSL # BSL # f @ BSL # g"
    using assms unfolding unc_device_def by blast
  let ?q = "d @ BSL # rest"
  have j: "skip_non_separators ?q 2 = 2 + length f"
  proof -
    have "skip_non_separators ([BSL, BSL] @ f @ (BSL # g @ BSL # rest)) (length [BSL, BSL])
        = length [BSL, BSL] + length f"
      by (rule skip_non_separators_append) (use fg in simp_all)
    then show ?thesis by (simp add: d numeral_2_eq_2)
  qed
  have g0: "\<not> wsep (hd (g @ BSL # rest))" using fg by (cases g) auto
  have j2: "skip_separators ?q (2 + length f) = 3 + length f"
  proof -
    have "skip_separators (([BSL, BSL] @ f) @ BSL # (g @ BSL # rest)) (length ([BSL, BSL] @ f))
        = Suc (length ([BSL, BSL] @ f))"
      by (rule skip_separators_one) (use g0 in simp_all)
    then show ?thesis by (simp add: d numeral_2_eq_2 numeral_3_eq_3)
  qed
  have j3: "skip_non_separators ?q (3 + length f) = 3 + length f + length g"
  proof -
    have "skip_non_separators (([BSL, BSL] @ f @ [BSL]) @ g @ (BSL # rest))
            (length ([BSL, BSL] @ f @ [BSL]))
        = length ([BSL, BSL] @ f @ [BSL]) + length g"
      by (rule skip_non_separators_append) (use fg in simp_all)
    then show ?thesis by (simp add: d numeral_2_eq_2 numeral_3_eq_3)
  qed
  have s1: "slice ?q 2 (int (2 + length f)) = f"
    using slice_take_drop [of 2 "2 + length f" ?q] by (simp add: d numeral_2_eq_2)
  have s2: "slice ?q (int (3 + length f)) (int (3 + length f + length g)) = g"
    using slice_take_drop [of "3 + length f" "3 + length f + length g" ?q]
    by (simp add: d numeral_3_eq_3)
  have c: "charCodeAt ?q 0 = Some CHAR_BACKWARD_SLASH" "charCodeAt ?q 1 = Some CHAR_BACKWARD_SLASH"
    by (simp_all add: d charCodeAt_def)
  have len: "length ?q = 4 + length f + length g + length rest" by (simp add: d)
  have fl: "length f \<noteq> 0" "length g \<noteq> 0" using fg by simp_all
  show ?thesis
    unfolding winNormalize_root_def Let_def c j j2 j3 s1 s2 len
    using fl by (simp add: isPathSeparator_def d)
qed

lemma drive_letter_no_separator:
  "isWindowsDeviceRoot (Some (of_char x)) \<Longrightarrow> \<not> wsep x"
  by (auto simp: isWindowsDeviceRoot_def wsep_def)

lemma winNormalize_root_drive_absolute:
  assumes "drive_device d"
  shows "winNormalize_root (d @ BSL # rest) = Inr (3, Some d, True)"
proof -
  obtain x where x: "isWindowsDeviceRoot (Some (of_char x))" and d: "d = [x, CHR '':'']"
    using assms unfolding drive_device_def by blast
  have ns: "\<not> wsep x" by (rule drive_letter_no_separator [OF x])
  show ?thesis
    using x ns unfolding winNormalize_root_def d
    by (simp add: Let_def slice_def)
qed

lemma winNormalize_root_drive_relative:
  assumes "drive_device d" "\<not> wsep c"
  shows "winNormalize_root (d @ c # rest) = Inr (2, Some d, False)"
proof -
  obtain x where x: "isWindowsDeviceRoot (Some (of_char x))" and d: "d = [x, CHR '':'']"
    using assms unfolding drive_device_def by blast
  have ns: "\<not> wsep x" by (rule drive_letter_no_separator [OF x])
  show ?thesis
    using x ns assms(2) unfolding winNormalize_root_def d
    by (simp add: Let_def slice_def)
qed

lemma winNormalize_root_rooted:
  assumes "\<not> wsep c"
  shows "winNormalize_root (BSL # c # rest) = Inr (1, None, True)"
  using assms unfolding winNormalize_root_def by (simp add: Let_def)

lemma winNormalize_root_plain:
  assumes "\<not> wsep c" "\<not> has_drive_prefix (c # e # rest)"
  shows "winNormalize_root (c # e # rest) = Inr (0, None, False)"
  using assms unfolding winNormalize_root_def has_drive_prefix_def by (auto simp add: Let_def)

lemma kept_dot:
  "\<not> char_is_separator isSep (CHR ''.'') \<Longrightarrow> kept_segments ''.'' allow isSep = []"
  by (simp add: kept_segments_def segments_def resolve_segment_def)

lemma not_wsep_dot [simp]: "\<not> wsep (CHR ''.'')"
  by (simp add: wsep_def)

lemma win_tail_facts:
  assumes normal: "normal_stack (\<not> ab) stack"
    and free: "\<forall>seg \<in> set stack. list_all (\<lambda>c. \<not> char_is_separator isPathSeparator c) seg"
  shows "win_tail ab stack = [] \<longleftrightarrow> (stack = [] \<and> ab)"
    and "win_tail ab stack \<noteq> [] \<Longrightarrow>
           \<not> wsep (hd (win_tail ab stack)) \<and> \<not> wsep (last (win_tail ab stack))"
    and "kept_segments (win_tail ab stack) (\<not> ab) isPathSeparator = stack"
    and "kept_segments (win_tail ab stack @ [BSL]) (\<not> ab) isPathSeparator = stack"
proof -
  have nonempty: "\<forall>seg \<in> set stack. seg \<noteq> []" by (rule normal_stack_nonempty [OF normal])
  have free': "\<forall>seg \<in> set stack. list_all (\<lambda>c. \<not> wsep c) seg"
    using free by (simp add: windows_separator)
  show a: "win_tail ab stack = [] \<longleftrightarrow> (stack = [] \<and> ab)"
    using join_eq_Nil [OF nonempty, of "[BSL]"] by (auto simp: win_tail_def)
  show "win_tail ab stack \<noteq> [] \<Longrightarrow>
           \<not> wsep (hd (win_tail ab stack)) \<and> \<not> wsep (last (win_tail ab stack))"
  proof (cases "stack = []")
    case True
    assume "win_tail ab stack \<noteq> []"
    then show ?thesis using True by (auto simp: win_tail_def)
  next
    case False
    then show ?thesis using join_free_ends [OF False nonempty free', of "[BSL]"]
      by (simp add: win_tail_def)
  qed
  show c: "kept_segments (win_tail ab stack) (\<not> ab) isPathSeparator = stack"
  proof (cases "stack = []")
    case True
    then show ?thesis by (auto simp: win_tail_def kept_dot windows_separator)
  next
    case False
    then show ?thesis using kept_join [OF _ normal False free, of BSL]
      by (simp add: win_tail_def windows_separator)
  qed
  show "kept_segments (win_tail ab stack @ [BSL]) (\<not> ab) isPathSeparator = stack"
    using c by (simp add: kept_trail windows_separator)
qed

lemma winNormalize_string_single:
  "c \<noteq> CHR ''/'' \<Longrightarrow> winNormalize_string [c] = [c]"
  by (simp add: winNormalize_string_def isPosixPathSeparator_def of_char_47)

lemma unc_device_length: "unc_device d \<Longrightarrow> 2 \<le> length d"
  by (auto simp: unc_device_def)

lemma drive_device_length: "drive_device d \<Longrightarrow> length d = 2"
  by (auto simp: drive_device_def)

lemma winNormalize_string_fixed:
  assumes dev: "case dev of None \<Rightarrow> True | Some d \<Rightarrow> (unc_device d \<and> ab) \<or> drive_device d"
    and normal: "normal_stack (\<not> ab) stack"
    and free: "\<forall>seg \<in> set stack. list_all (\<lambda>c. \<not> char_is_separator isPathSeparator c) seg"
    and nd: "dev = None \<Longrightarrow> \<not> ab \<Longrightarrow> \<not> has_drive_prefix (win_assemble dev ab stack trail)"
  shows "winNormalize_string (win_assemble dev ab stack trail) = win_assemble dev ab stack trail"
proof -
  note tf = win_tail_facts [OF normal free]
  define t where "t = (if win_tail ab stack \<noteq> [] \<and> trail then win_tail ab stack @ [BSL]
                      else win_tail ab stack)"
  let ?q = "win_assemble dev ab stack trail"
  have q: "?q = (case dev of None \<Rightarrow> [] | Some d \<Rightarrow> d) @ (if ab then [BSL] else []) @ t"
    by (simp add: win_assemble_def t_def)
  have te: "t = [] \<longleftrightarrow> win_tail ab stack = []" by (simp add: t_def)
  have th: "t \<noteq> [] \<Longrightarrow> \<not> wsep (hd t)" using tf(2) by (auto simp: t_def)
  have tl: "t \<noteq> [] \<Longrightarrow> wsep (last t) \<longleftrightarrow> trail" using tf(2) by (auto simp: t_def)
  have tk: "kept_segments t (\<not> ab) isPathSeparator = stack" using tf(3,4) by (simp add: t_def)
  have tk': "kept_segments (BSL # t) (\<not> ab) isPathSeparator = stack"
    using tk by (simp add: kept_lead windows_separator)
  have again: "\<And>x. (t \<noteq> [] \<Longrightarrow> wsep (last x) = wsep (last t)) \<Longrightarrow>
      win_assemble dev ab stack (wsep (last x)) = ?q"
    using te tl by (auto simp: win_assemble_def)
  show ?thesis
  proof (cases dev)
    case (Some d)
    show ?thesis
    proof (cases ab)
      case True
      have q': "?q = d @ BSL # t" using Some True q by simp
      have lastq: "t \<noteq> [] \<Longrightarrow> wsep (last (d @ BSL # t)) = wsep (last t)" by simp
      from dev Some consider (unc) "unc_device d" | (drive) "drive_device d" by auto
      then show ?thesis
      proof cases
        case unc
        have len: "2 \<le> length (d @ BSL # t)" using unc_device_length [OF unc] by simp
        have root: "winNormalize_root (d @ BSL # t) = Inr (length d, Some d, True)"
          by (rule winNormalize_root_unc [OF unc])
        have "winNormalize_string (d @ BSL # t)
            = win_assemble (Some d) True
                (kept_segments (drop (length d) (d @ BSL # t)) (\<not> True) isPathSeparator)
                (wsep (last (d @ BSL # t)))"
          by (rule winNormalize_string_general [OF len root]) simp
        then show ?thesis using tk' again [OF lastq] Some True unfolding q' by simp
      next
        case drive
        have len: "2 \<le> length (d @ BSL # t)" using drive_device_length [OF drive] by simp
        have root: "winNormalize_root (d @ BSL # t) = Inr (3, Some d, True)"
          by (rule winNormalize_root_drive_absolute [OF drive])
        have l3: "3 \<le> length (d @ BSL # t)" using drive_device_length [OF drive] by simp
        have dr: "drop 3 (d @ BSL # t) = t" using drive_device_length [OF drive] by simp
        have "winNormalize_string (d @ BSL # t)
            = win_assemble (Some d) True
                (kept_segments (drop 3 (d @ BSL # t)) (\<not> True) isPathSeparator)
                (wsep (last (d @ BSL # t)))"
          by (rule winNormalize_string_general [OF len root l3])
        then show ?thesis using tk again [OF lastq] Some True unfolding q' dr by simp
      qed
    next
      case False
      then have drive: "drive_device d" using dev Some by simp
      have tne: "t \<noteq> []" using te tf(1) False by simp
      then obtain c rest where t: "t = c # rest" by (cases t) auto
      have c: "\<not> wsep c" using th tne t by simp
      have q': "?q = d @ c # rest" using Some False q t by simp
      have len: "2 \<le> length (d @ c # rest)" using drive_device_length [OF drive] by simp
      have root: "winNormalize_root (d @ c # rest) = Inr (2, Some d, False)"
        by (rule winNormalize_root_drive_relative [OF drive c])
      have dr: "drop 2 (d @ c # rest) = t" using drive_device_length [OF drive] t by simp
      have lastq: "t \<noteq> [] \<Longrightarrow> wsep (last (d @ c # rest)) = wsep (last t)" using t by simp
      have "winNormalize_string (d @ c # rest)
          = win_assemble (Some d) False
              (kept_segments (drop 2 (d @ c # rest)) (\<not> False) isPathSeparator)
              (wsep (last (d @ c # rest)))"
        by (rule winNormalize_string_general [OF len root])
          (use drive_device_length [OF drive] in simp)
      then show ?thesis using tk again [OF lastq] Some False unfolding q' dr by simp
    qed
  next
    case None
    show ?thesis
    proof (cases ab)
      case True
      have q': "?q = BSL # t" using None True q by simp
      show ?thesis
      proof (cases t)
        case Nil
        then show ?thesis unfolding q' by (simp add: winNormalize_string_single)
      next
        case (Cons c rest)
        then have c: "\<not> wsep c" using th by simp
        have len: "2 \<le> length (BSL # c # rest)" by simp
        have root: "winNormalize_root (BSL # c # rest) = Inr (1, None, True)"
          by (rule winNormalize_root_rooted [OF c])
        have lastq: "t \<noteq> [] \<Longrightarrow> wsep (last (BSL # c # rest)) = wsep (last t)"
          using Cons by simp
        have "winNormalize_string (BSL # c # rest)
            = win_assemble None True
                (kept_segments (drop 1 (BSL # c # rest)) (\<not> True) isPathSeparator)
                (wsep (last (BSL # c # rest)))"
          by (rule winNormalize_string_general [OF len root]) simp
        then show ?thesis using tk again [OF lastq] None True Cons unfolding q' by simp
      qed
    next
      case False
      have q': "?q = t" using None False q by simp
      have tne: "t \<noteq> []" using te tf(1) False by simp
      then obtain c rest where t: "t = c # rest" by (cases t) auto
      have c: "\<not> wsep c" using th tne t by simp
      show ?thesis
      proof (cases rest)
        case Nil
        have "c \<noteq> CHR ''/''" using c by (auto simp: wsep_def)
        then show ?thesis unfolding q' t Nil by (rule winNormalize_string_single)
      next
        case (Cons e rest')
        have nd': "\<not> has_drive_prefix (c # e # rest')"
          using nd [OF None False] q' t Cons by simp
        have len: "2 \<le> length (c # e # rest')" by simp
        have root: "winNormalize_root (c # e # rest') = Inr (0, None, False)"
          by (rule winNormalize_root_plain [OF c nd'])
        have lastq: "t \<noteq> [] \<Longrightarrow> wsep (last (c # e # rest')) = wsep (last t)"
          using t Cons by simp
        have "winNormalize_string (c # e # rest')
            = win_assemble None False
                (kept_segments (drop 0 (c # e # rest')) (\<not> False) isPathSeparator)
                (wsep (last (c # e # rest')))"
          by (rule winNormalize_string_general [OF len root]) simp
        then show ?thesis using tk again [OF lastq] None False t Cons unfolding q' by simp
      qed
    qed
  qed
qed

lemma winNormalize_string_idempotent:
  assumes "has_drive_prefix (winNormalize_string p) \<longrightarrow> has_drive_prefix p"
  shows "winNormalize_string (winNormalize_string p) = winNormalize_string p"
proof -
  consider (empty) "p = []" | (single) c where "p = [c]" | (long) "2 \<le> length p"
    by (cases p; cases "tl p") auto
  then show ?thesis
  proof cases
    case empty
    have "winNormalize_string ''.'' = ''.''" by (rule winNormalize_string_single) simp
    then show ?thesis using empty by (simp add: winNormalize_string_def)
  next
    case single
    show ?thesis
    proof (cases "c = CHR ''/''")
      case True
      have "winNormalize_string [BSL] = [BSL]" by (rule winNormalize_string_single) simp
      then show ?thesis using single True
        by (simp add: winNormalize_string_def isPosixPathSeparator_def)
    next
      case False
      then show ?thesis using single by (simp add: winNormalize_string_single)
    qed
  next
    case long
    show ?thesis
    proof (cases "winNormalize_root p")
      case (Inl r)
      then obtain d where d: "unc_device d" "r = d @ [BSL]"
        using winNormalize_root_Inl [OF long] by blast
      have ne: "length p \<noteq> 0" "length p \<noteq> 1" using long by auto
      have p: "winNormalize_string p = r"
        unfolding winNormalize_string_def
        by (simp only: Let_def ne if_False Inl sum.case)
      have "winNormalize_string (win_assemble (Some d) True [] False)
          = win_assemble (Some d) True [] False"
        by (rule winNormalize_string_fixed) (simp_all add: d)
      then show ?thesis unfolding p d by (simp add: win_assemble_def win_tail_def)
    next
      case (Inr x)
      then obtain re dev ab where root: "winNormalize_root p = Inr (re, dev, ab)"
        by (cases x) auto
      have re: "re \<le> length p" by (rule winNormalize_root_bound [OF long root])
      let ?stack = "kept_segments (drop re p) (\<not> ab) isPathSeparator"
      have p: "winNormalize_string p = win_assemble dev ab ?stack (wsep (last p))"
        by (rule winNormalize_string_general [OF long root re])
      have dv: "case dev of None \<Rightarrow> True | Some d \<Rightarrow> (unc_device d \<and> ab) \<or> drive_device d"
      proof (cases dev)
        case None
        then show ?thesis by simp
      next
        case (Some d)
        then show ?thesis using winNormalize_root_device [OF long] root by auto
      qed
      have nd: "dev = None \<Longrightarrow> \<not> ab \<Longrightarrow>
          \<not> has_drive_prefix (win_assemble dev ab ?stack (wsep (last p)))"
        using assms winNormalize_root_relative [of p re] root unfolding p by auto
      show ?thesis unfolding p
        by (rule winNormalize_string_fixed [OF dv kept_normal kept_free nd])
    qed
  qed
qed

text \<open>
  C2, amended. POSIX \<open>normalize\<close> is idempotent on every string. Windows \<open>normalize\<close>
  is idempotent on every string whose normalized form starts with a drive letter and a
  colon only if the string itself does.
\<close>

theorem normalize_idempotent:
  "(\<exists>q. posNormalize (JSString p) = Inr q \<and> posNormalize (JSString q) = Inr q) \<and>
   ((has_drive_prefix (winNormalize_string p) \<longrightarrow> has_drive_prefix p) \<longrightarrow>
    (\<exists>q. winNormalize (JSString p) = Inr q \<and> winNormalize (JSString q) = Inr q))"
  using posNormalize_string_idempotent [of p] winNormalize_string_idempotent [of p]
  by (simp add: posNormalize_def winNormalize_def)

theorem normalize_idempotent_witness:
  "posNormalize (JSString ''/foo/bar//baz/asdf/quux/..'') = Inr ''/foo/bar/baz/asdf'' \<and>
   posNormalize (JSString ''/foo/bar/baz/asdf'') = Inr ''/foo/bar/baz/asdf'' \<and>
   winNormalize (JSString ''C:/a/../b/'') = Inr (''C:'' @ [BSL] @ ''b'' @ [BSL]) \<and>
   winNormalize (JSString (''C:'' @ [BSL] @ ''b'' @ [BSL])) = Inr (''C:'' @ [BSL] @ ''b'' @ [BSL])"
proof -
  have 1: "posNormalize (JSString ''/foo/bar//baz/asdf/quux/..'') = Inr ''/foo/bar/baz/asdf''"
    by code_simp
  have 2: "winNormalize_string ''C:/a/../b/'' = ''C:'' @ [BSL] @ ''b'' @ [BSL]" by code_simp
  have 3: "has_drive_prefix ''C:/a/../b/''" by code_simp
  show ?thesis
    using normalize_idempotent [of "''/foo/bar//baz/asdf/quux/..''"]
      normalize_idempotent [of "''C:/a/../b/''"] 1 2 3
    by (simp add: winNormalize_def)
qed

theorem normalize_idempotent_counterexample:
  "winNormalize (JSString ''./C:'') = Inr ''C:'' \<and>
   winNormalize (JSString ''C:'') = Inr ''C:.'' \<and>
   ''C:.'' \<noteq> ''C:''"
proof -
  have 1: "winNormalize (JSString ''./C:'') = Inr ''C:''" by code_simp
  have 2: "winNormalize (JSString ''C:'') = Inr ''C:.''" by code_simp
  show ?thesis using 1 2 by simp
qed

subsection \<open>format after parse\<close>

lemma ext_scan_step_non_separator:
  assumes "i < length p" "\<not> isSep (Some (of_char (p ! i)))" "lo \<le> int i"
  shows "\<exists>st'. ext_scan isSep p lo (Suc i) st = ext_scan isSep p lo i st' \<and>
           scan_end st' = (if scan_end st = - 1 then int i + 1 else scan_end st) \<and>
           scan_matchedSlash st' = (if scan_end st = - 1 then False else scan_matchedSlash st) \<and>
           startPart st' = startPart st"
proof -
  define st1 where "st1 = (if scan_end st = - 1
                          then st\<lparr>scan_matchedSlash := False, scan_end := int i + 1\<rparr>
                          else st)"
  define st2 where "st2 = (if charCodeAt p (int i) = Some CHAR_DOT then
                            (if startDot st1 = - 1 then st1\<lparr>startDot := int i\<rparr>
                             else if preDotState st1 \<noteq> 1 then st1\<lparr>preDotState := 1\<rparr>
                             else st1)
                          else if startDot st1 \<noteq> - 1 then st1\<lparr>preDotState := - 1\<rparr>
                          else st1)"
  have code: "charCodeAt p (int i) = Some (of_char (p ! i))"
    using assms(1) by (simp add: charCodeAt_int)
  have "ext_scan isSep p lo (Suc i) st = ext_scan isSep p lo i st2"
    using assms(2,3) code by (simp add: st1_def st2_def Let_def)
  moreover have "scan_end st2 = (if scan_end st = - 1 then int i + 1 else scan_end st)"
    "scan_matchedSlash st2 = (if scan_end st = - 1 then False else scan_matchedSlash st)"
    "startPart st2 = startPart st"
    by (simp_all add: st1_def st2_def)
  ultimately show ?thesis by blast
qed

lemma ext_scan_over_segment:
  assumes "list_all (\<lambda>c. \<not> isSep (Some (of_char c))) seg" "lo \<le> int (length pre)"
    "seg \<noteq> []"
  shows "\<exists>st'. ext_scan isSep (pre @ seg @ post) lo (length pre + length seg) st
                 = ext_scan isSep (pre @ seg @ post) lo (length pre) st' \<and>
           scan_end st' = (if scan_end st = - 1 then int (length pre + length seg)
                           else scan_end st) \<and>
           scan_matchedSlash st' = (if scan_end st = - 1 then False else scan_matchedSlash st) \<and>
           startPart st' = startPart st"
  using assms
proof (induction seg arbitrary: post st rule: rev_induct)
  case Nil
  then show ?case by simp
next
  case (snoc x xs)
  let ?p = "pre @ (xs @ [x]) @ post"
  let ?i = "length pre + length xs"
  have i: "?i < length ?p" by simp
  have x: "?p ! ?i = x" by (simp add: nth_append)
  have nsep: "\<not> isSep (Some (of_char (?p ! ?i)))" using snoc.prems(1) unfolding x by simp
  have lo: "lo \<le> int ?i" using snoc.prems(2) by simp
  obtain st1 where st1: "ext_scan isSep ?p lo (Suc ?i) st = ext_scan isSep ?p lo ?i st1"
    "scan_end st1 = (if scan_end st = - 1 then int ?i + 1 else scan_end st)"
    "scan_matchedSlash st1 = (if scan_end st = - 1 then False else scan_matchedSlash st)"
    "startPart st1 = startPart st"
    using ext_scan_step_non_separator [where isSep = isSep and st = st, OF i nsep lo] by blast
  have len: "length pre + length (xs @ [x]) = Suc ?i" by simp
  show ?case
  proof (cases "xs = []")
    case True
    then show ?thesis using st1 unfolding len by auto
  next
    case False
    have p': "?p = pre @ xs @ (x # post)" by simp
    have xs: "list_all (\<lambda>c. \<not> isSep (Some (of_char c))) xs" using snoc.prems(1) by simp
    obtain st2 where st2: "ext_scan isSep (pre @ xs @ (x # post)) lo ?i st1
          = ext_scan isSep (pre @ xs @ (x # post)) lo (length pre) st2"
      "scan_end st2 = (if scan_end st1 = - 1 then int ?i else scan_end st1)"
      "scan_matchedSlash st2 = (if scan_end st1 = - 1 then False else scan_matchedSlash st1)"
      "startPart st2 = startPart st1"
      using snoc.IH [OF xs snoc.prems(2) False, where post = "x # post" and st = st1] by blast
    have e1: "scan_end st1 \<noteq> - 1" using st1(2) by simp
    show ?thesis
      unfolding len st1(1) unfolding p' st2(1)
      using st1 st2 e1 by (intro exI [of _ st2]) auto
  qed
qed

lemma ext_scan_stop:
  "int (length pre) \<le> lo \<Longrightarrow> ext_scan isSep p lo (length pre) st = st"
  by (cases "length pre") simp_all

lemma ext_scan_break:
  assumes "isSep (Some (of_char c))" "\<not> scan_matchedSlash st" "lo \<le> int (length pre)"
  shows "ext_scan isSep (pre @ c # rest) lo (Suc (length pre)) st
           = st\<lparr>startPart := int (length pre) + 1\<rparr>"
  using assms by (simp add: charCodeAt_int)

lemma format_parsed:
  "format' sep (parsed_object r) =
     Inr (let b = (if base r \<noteq> [] then base r else name r @ formatExt (Some (ext r)))
          in if dir r = [] then (if root r = [] then b else root r @ b)
             else if dir r = root r then dir r @ b
             else dir r @ sep @ b)"
proof -
  have t: "\<And>x. truthy (Some x) = (x \<noteq> [])" by (simp add: truthy_def split: list.splits)
  have o: "\<And>x y. js_or (Some x) y = (if x \<noteq> [] then Some x else y)"
    by (simp add: js_or_def split: list.splits)
  show ?thesis
    by (auto simp add: format'_def parsed_object_def Let_def t o)
qed

lemma real_segments_normal:
  "list_all (real_segment sepc) reals \<Longrightarrow> normal_stack allow reals"
proof (induction reals rule: rev_induct)
  case Nil
  show ?case by simp
next
  case (snoc x xs)
  then show ?case by (simp add: normal_stack_snoc real_segment_def)
qed

lemma real_segments_free:
  "list_all (real_segment sepc) reals \<Longrightarrow> \<forall>seg \<in> set reals. list_all (\<lambda>c. \<not> sepc c) seg"
  by (auto simp: list_all_iff real_segment_def)

lemma real_segments_nonempty:
  "list_all (real_segment sepc) reals \<Longrightarrow> \<forall>seg \<in> set reals. seg \<noteq> []"
  by (auto simp: list_all_iff real_segment_def)

lemma posParse_string_fields:
  assumes "p \<noteq> []" and lo: "lo = (if hd p = CHR ''/'' then 1 else 0)"
    and scan: "ext_scan isPosixPathSeparator p lo (length p)
                 \<lparr>startDot = - 1, startPart = 0, scan_end = - 1,
                  scan_matchedSlash = True, preDotState = 0\<rparr> = st"
  shows "root (posParse_string p) = (if hd p = CHR ''/'' then ''/'' else [])"
    and "dir (posParse_string p) =
          (if startPart st > 0 then slice p 0 (startPart st - 1)
           else if hd p = CHR ''/'' then ''/'' else [])"
    and "base (posParse_string p) =
          (if scan_end st = - 1 then []
           else slice p (if startPart st = 0 \<and> hd p = CHR ''/'' then 1 else startPart st)
                  (scan_end st))"
  using assms(1) scan [unfolded lo]
  by (auto simp add: posParse_string_def Let_def first_is_slash simp del: ext_scan.simps)

lemma posix_code_separator [simp]: "isPosixPathSeparator (Some (of_char c)) \<longleftrightarrow> c = CHR ''/''"
  by (simp add: isPosixPathSeparator_def of_char_47)

lemma slice_suffix:
  "slice (xs @ ys) (int (length xs)) (int (length (xs @ ys))) = ys"
  by (simp add: slice_def Let_def)

lemma slice_prefix: "slice (xs @ ys) 0 (int (length xs)) = xs"
  by (simp add: slice_def Let_def)

lemma posix_round_trip:
  assumes reals: "list_all (real_segment (\<lambda>c. c = CHR ''/'')) reals"
    and shape: "rt = ''/'' \<or> (rt = [] \<and> reals \<noteq> [])"
  shows "posFormat (parsed_object (posParse_string (rt @ join ''/'' reals)))
           = Inr (rt @ join ''/'' reals) \<and>
         posNormalize_string (rt @ join ''/'' reals) = rt @ join ''/'' reals"
proof (cases "reals = []")
  case True
  have 1: "posFormat (parsed_object (posParse_string ''/'')) = Inr ''/''" by code_simp
  have 2: "posNormalize_string ''/'' = ''/''" by code_simp
  show ?thesis using True shape 1 2 by simp
next
  case False
  let ?p = "rt @ join ''/'' reals"
  let ?st0 = "\<lparr>startDot = - 1, startPart = 0, scan_end = - 1,
               scan_matchedSlash = True, preDotState = 0\<rparr>"
  have nonempty: "\<forall>seg \<in> set reals. seg \<noteq> []" by (rule real_segments_nonempty [OF reals])
  have free: "\<forall>seg \<in> set reals. list_all (\<lambda>c. \<not> c = CHR ''/'') seg"
    by (rule real_segments_free [OF reals])
  have jne: "join ''/'' reals \<noteq> []" by (rule join_nonempty [OF False nonempty])
  have pne: "?p \<noteq> []" using jne by simp
  have ends: "hd (join ''/'' reals) \<noteq> CHR ''/''"
    using join_free_ends [OF False nonempty free, of "''/''"] by simp
  have hdp: "hd ?p = CHR ''/'' \<longleftrightarrow> rt = ''/''"
    using shape ends by auto
  define lo :: int where "lo = (if hd ?p = CHR ''/'' then 1 else 0)"
  have lo: "lo = int (length rt)" using shape hdp by (auto simp: lo_def)
  define seg where "seg = last reals"
  have seg: "seg \<noteq> []" "list_all (\<lambda>c. \<not> isPosixPathSeparator (Some (of_char c))) seg"
    using nonempty free False by (simp_all add: seg_def)
  have norm: "posNormalize_string ?p = ?p"
  proof -
    have "posNormalize_string ((if rt = ''/'' then ''/'' else []) @ join ''/'' reals @
            (if False then ''/'' else []))
        = (if rt = ''/'' then ''/'' else []) @ join ''/'' reals @ (if False then ''/'' else [])"
      by (rule posNormalize_string_fixed [OF real_segments_normal [OF reals] False])
        (use free in \<open>simp add: posix_separator\<close>)
    then show ?thesis using shape by auto
  qed
  have fmt: "posFormat (parsed_object (posParse_string ?p)) = Inr ?p"
  proof (cases "butlast reals = []")
    case True
    then have p: "?p = rt @ seg" using join_butlast [OF False, of "''/''"] by (simp add: seg_def)
    obtain st' where st': "ext_scan isPosixPathSeparator (rt @ seg @ []) lo
          (length rt + length seg) ?st0
        = ext_scan isPosixPathSeparator (rt @ seg @ []) lo (length rt) st'"
      "scan_end st' = int (length rt + length seg)" "startPart st' = 0"
      using ext_scan_over_segment [where isSep = isPosixPathSeparator and st = ?st0
          and post = "[]", OF seg(2) _ seg(1), of lo rt] lo
      by auto
    have stop: "ext_scan isPosixPathSeparator (rt @ seg) lo (length rt) st' = st'"
      by (rule ext_scan_stop) (simp add: lo)
    have scan: "ext_scan isPosixPathSeparator (rt @ seg) lo (length (rt @ seg)) ?st0 = st'"
      using st'(1) stop by (simp del: ext_scan.simps)
    have b: "slice (rt @ seg) (int (length rt)) (int (length rt + length seg)) = seg"
      using slice_suffix [of rt seg] by simp
    have r: "root (posParse_string ?p) = rt" "dir (posParse_string ?p) = rt"
      "base (posParse_string ?p) = seg"
      using posParse_string_fields [OF pne lo_def scan [folded p]] shape hdp st'(2,3)
        b [folded p] seg(1)
      by (auto simp add: lo)
    show ?thesis unfolding posFormat_def format_parsed r using seg(1) p by simp
  next
    case multi: False
    define pre where "pre = rt @ join ''/'' (butlast reals)"
    have p: "?p = pre @ CHR ''/'' # seg"
      using join_butlast [OF False, of "''/''"] multi by (simp add: seg_def pre_def)
    have nb: "\<forall>seg \<in> set (butlast reals). seg \<noteq> []"
      using nonempty by (auto dest: in_set_butlastD)
    have prene: "join ''/'' (butlast reals) \<noteq> []" by (rule join_nonempty [OF multi nb])
    have lopre: "lo \<le> int (length pre)" by (simp add: lo pre_def)
    obtain st' where st': "ext_scan isPosixPathSeparator ((pre @ ''/'') @ seg @ []) lo
          (length (pre @ ''/'') + length seg) ?st0
        = ext_scan isPosixPathSeparator ((pre @ ''/'') @ seg @ []) lo (length (pre @ ''/'')) st'"
      "scan_end st' = int (length (pre @ ''/'') + length seg)" "startPart st' = 0"
      "\<not> scan_matchedSlash st'"
      using ext_scan_over_segment [where isSep = isPosixPathSeparator and st = ?st0
          and post = "[]", OF seg(2) _ seg(1), of lo "pre @ ''/''"] lopre
      by auto
    have brk: "ext_scan isPosixPathSeparator (pre @ CHR ''/'' # seg) lo (Suc (length pre)) st'
        = st'\<lparr>startPart := int (length pre) + 1\<rparr>"
      by (rule ext_scan_break [OF _ st'(4) lopre]) (simp add: isPosixPathSeparator_def)
    have scan: "ext_scan isPosixPathSeparator (pre @ CHR ''/'' # seg) lo
          (length (pre @ CHR ''/'' # seg)) ?st0 = st'\<lparr>startPart := int (length pre) + 1\<rparr>"
      using st'(1) brk by (simp del: ext_scan.simps)
    have b: "slice (pre @ CHR ''/'' # seg) (int (length pre) + 1)
          (int (length (pre @ ''/'') + length seg)) = seg"
      using slice_suffix [of "pre @ ''/''" seg] by (simp add: add.commute)
    have d: "slice (pre @ CHR ''/'' # seg) 0 (int (length pre)) = pre"
      by (rule slice_prefix)
    have r: "root (posParse_string ?p) = rt" "dir (posParse_string ?p) = pre"
      "base (posParse_string ?p) = seg"
      using posParse_string_fields [OF pne lo_def scan [folded p]] shape hdp st'(2,3)
        b [folded p] d [folded p] seg(1)
      by auto
    have "pre \<noteq> []" "pre \<noteq> rt" using prene by (simp_all add: pre_def)
    then show ?thesis unfolding posFormat_def format_parsed r using seg(1) p by simp
  qed
  show ?thesis using fmt norm by simp
qed

lemma winParse_root_unc:
  assumes "unc_device d"
  shows "winParse_root (d @ BSL # rest) = Some (Suc (length d))"
proof -
  obtain f g where fg: "f \<noteq> []" "g \<noteq> []" "list_all (\<lambda>c. \<not> wsep c) f"
      "list_all (\<lambda>c. \<not> wsep c) g" and d: "d = BSL # BSL # f @ BSL # g"
    using assms unfolding unc_device_def by blast
  let ?q = "d @ BSL # rest"
  have j: "skip_non_separators ?q 2 = 2 + length f"
  proof -
    have "skip_non_separators ([BSL, BSL] @ f @ (BSL # g @ BSL # rest)) (length [BSL, BSL])
        = length [BSL, BSL] + length f"
      by (rule skip_non_separators_append) (use fg in simp_all)
    then show ?thesis by (simp add: d numeral_2_eq_2)
  qed
  have g0: "\<not> wsep (hd (g @ BSL # rest))" using fg by (cases g) auto
  have j2: "skip_separators ?q (2 + length f) = 3 + length f"
  proof -
    have "skip_separators (([BSL, BSL] @ f) @ BSL # (g @ BSL # rest)) (length ([BSL, BSL] @ f))
        = Suc (length ([BSL, BSL] @ f))"
      by (rule skip_separators_one) (use g0 in simp_all)
    then show ?thesis by (simp add: d numeral_2_eq_2 numeral_3_eq_3)
  qed
  have j3: "skip_non_separators ?q (3 + length f) = 3 + length f + length g"
  proof -
    have "skip_non_separators (([BSL, BSL] @ f @ [BSL]) @ g @ (BSL # rest))
            (length ([BSL, BSL] @ f @ [BSL]))
        = length ([BSL, BSL] @ f @ [BSL]) + length g"
      by (rule skip_non_separators_append) (use fg in simp_all)
    then show ?thesis by (simp add: d numeral_2_eq_2 numeral_3_eq_3)
  qed
  have c: "charCodeAt ?q 0 = Some CHAR_BACKWARD_SLASH" "charCodeAt ?q 1 = Some CHAR_BACKWARD_SLASH"
    by (simp_all add: d charCodeAt_def)
  have len: "length ?q = 4 + length f + length g + length rest" by (simp add: d)
  have fl: "length f \<noteq> 0" "length g \<noteq> 0" using fg by simp_all
  show ?thesis
    unfolding winParse_root_def Let_def c j j2 j3 len
    using fl by (simp add: d)
qed

lemma winParse_root_drive_absolute:
  assumes "drive_device d" "rest \<noteq> []"
  shows "winParse_root (d @ BSL # rest) = Some 3"
proof -
  obtain x where x: "isWindowsDeviceRoot (Some (of_char x))" and d: "d = [x, CHR '':'']"
    using assms unfolding drive_device_def by blast
  have ns: "\<not> wsep x" by (rule drive_letter_no_separator [OF x])
  show ?thesis
    using x ns assms(2) unfolding winParse_root_def d
    by (simp add: Let_def)
qed

lemma winParse_root_drive_relative:
  assumes "drive_device d" "\<not> wsep c"
  shows "winParse_root (d @ c # rest) = Some 2"
proof -
  obtain x where x: "isWindowsDeviceRoot (Some (of_char x))" and d: "d = [x, CHR '':'']"
    using assms unfolding drive_device_def by blast
  have ns: "\<not> wsep x" by (rule drive_letter_no_separator [OF x])
  show ?thesis
    using x ns assms(2) unfolding winParse_root_def d
    by (simp add: Let_def)
qed

lemma winParse_root_rooted:
  assumes "\<not> wsep c"
  shows "winParse_root (BSL # c # rest) = Some 1"
  using assms unfolding winParse_root_def by (simp add: Let_def)

lemma winParse_root_plain:
  assumes "\<not> wsep c" "\<not> has_drive_prefix (c # e # rest)"
  shows "winParse_root (c # e # rest) = Some 0"
  using assms unfolding winParse_root_def has_drive_prefix_def by (auto simp add: Let_def)

lemma winParse_string_fields:
  assumes len: "2 \<le> length p" and rt: "winParse_root p = Some re"
    and scan: "ext_scan isPathSeparator p (int re) (length p)
                 \<lparr>startDot = - 1, startPart = int re, scan_end = - 1,
                  scan_matchedSlash = True, preDotState = 0\<rparr> = st"
  shows "root (winParse_string p) = (if re > 0 then slice p 0 (int re) else [])"
    and "dir (winParse_string p) =
          (if startPart st > 0 \<and> startPart st \<noteq> int re then slice p 0 (startPart st - 1)
           else if re > 0 then slice p 0 (int re) else [])"
    and "base (winParse_string p) =
          (if scan_end st = - 1 then [] else slice p (startPart st) (scan_end st))"
    and "scan_end st = - 1 \<Longrightarrow> name (winParse_string p) = [] \<and> ext (winParse_string p) = []"
proof -
  have ne: "length p \<noteq> 0" "length p \<noteq> 1" using len by auto
  have u: "winParse_string p =
      (let ret = \<lparr>root = [], dir = [], base = [], ext = [], name = []\<rparr>;
           ret1 = (if re > 0 then ret\<lparr>root := slice p 0 (int re)\<rparr> else ret);
           ret2 =
             (if scan_end st \<noteq> - 1 then
                (if no_extension st then
                   ret1\<lparr>base := slice p (startPart st) (scan_end st),
                        name := slice p (startPart st) (scan_end st)\<rparr>
                 else
                   ret1\<lparr>name := slice p (startPart st) (startDot st),
                        base := slice p (startPart st) (scan_end st),
                        ext := slice p (startDot st) (scan_end st)\<rparr>)
              else ret1)
       in if startPart st > 0 \<and> startPart st \<noteq> int re
          then ret2\<lparr>dir := slice p 0 (startPart st - 1)\<rparr>
          else ret2\<lparr>dir := root ret2\<rparr>)"
    unfolding winParse_string_def
    by (simp only: Let_def ne if_False rt option.case scan)
  show "root (winParse_string p) = (if re > 0 then slice p 0 (int re) else [])"
    unfolding u by (simp add: Let_def)
  show "dir (winParse_string p) =
          (if startPart st > 0 \<and> startPart st \<noteq> int re then slice p 0 (startPart st - 1)
           else if re > 0 then slice p 0 (int re) else [])"
    unfolding u by (simp add: Let_def)
  show "base (winParse_string p) =
          (if scan_end st = - 1 then [] else slice p (startPart st) (scan_end st))"
    unfolding u by (simp add: Let_def)
  show "scan_end st = - 1 \<Longrightarrow> name (winParse_string p) = [] \<and> ext (winParse_string p) = []"
    unfolding u by (simp add: Let_def)
qed

lemma windows_format_parse:
  assumes len: "2 \<le> length (rt @ join [BSL] reals)"
    and root: "winParse_root (rt @ join [BSL] reals) = Some (length rt)"
    and reals: "list_all (real_segment wsep) reals"
  shows "winFormat (parsed_object (winParse_string (rt @ join [BSL] reals)))
           = Inr (rt @ join [BSL] reals)"
proof -
  let ?p = "rt @ join [BSL] reals"
  let ?st0 = "\<lparr>startDot = - 1, startPart = int (length rt), scan_end = - 1,
               scan_matchedSlash = True, preDotState = 0\<rparr>"
  have nonempty: "\<forall>seg \<in> set reals. seg \<noteq> []" by (rule real_segments_nonempty [OF reals])
  have free: "\<forall>seg \<in> set reals. list_all (\<lambda>c. \<not> wsep c) seg"
    by (rule real_segments_free [OF reals])
  have rt0: "(if length rt > 0 then slice ?p 0 (int (length rt)) else []) = rt"
    by (simp add: slice_prefix)
  show ?thesis
  proof (cases "reals = []")
    case True
    have scan: "ext_scan isPathSeparator ?p (int (length rt)) (length ?p) ?st0 = ?st0"
      using True ext_scan_stop [of rt "int (length rt)" isPathSeparator ?p ?st0] by simp
    note f = winParse_string_fields [OF len root scan]
    have r: "root (winParse_string ?p) = rt" "dir (winParse_string ?p) = rt"
      "base (winParse_string ?p) = []" "name (winParse_string ?p) = []"
      "ext (winParse_string ?p) = []"
      using f rt0 by simp_all
    have "rt \<noteq> []" using len True by auto
    then show ?thesis unfolding winFormat_def format_parsed r using True
      by (simp add: formatExt_def)
  next
    case False
    define seg where "seg = last reals"
    have seg: "seg \<noteq> []" "list_all (\<lambda>c. \<not> isPathSeparator (Some (of_char c))) seg"
      using nonempty free False by (simp_all add: seg_def)
    show ?thesis
    proof (cases "butlast reals = []")
      case True
      then have p: "?p = rt @ seg" using join_butlast [OF False, of "[BSL]"] by (simp add: seg_def)
      obtain st' where st': "ext_scan isPathSeparator (rt @ seg @ []) (int (length rt))
            (length rt + length seg) ?st0
          = ext_scan isPathSeparator (rt @ seg @ []) (int (length rt)) (length rt) st'"
        "scan_end st' = int (length rt + length seg)" "startPart st' = int (length rt)"
        using ext_scan_over_segment [where isSep = isPathSeparator and st = ?st0
            and post = "[]", OF seg(2) _ seg(1), of "int (length rt)" rt]
        by auto
      have stop: "ext_scan isPathSeparator (rt @ seg) (int (length rt)) (length rt) st' = st'"
        by (rule ext_scan_stop) simp
      have scan: "ext_scan isPathSeparator (rt @ seg) (int (length rt)) (length (rt @ seg)) ?st0
          = st'"
        using st'(1) stop by (simp del: ext_scan.simps)
      have b: "slice (rt @ seg) (int (length rt)) (int (length rt + length seg)) = seg"
        using slice_suffix [of rt seg] by simp
      note f = winParse_string_fields [OF len root scan [folded p]]
      have r: "root (winParse_string ?p) = rt" "dir (winParse_string ?p) = rt"
        "base (winParse_string ?p) = seg"
        using f(1,2,3) rt0 st'(2,3) b [folded p] by simp_all
      show ?thesis unfolding winFormat_def format_parsed r using seg(1) p by simp
    next
      case multi: False
      define pre where "pre = rt @ join [BSL] (butlast reals)"
      have p: "?p = pre @ BSL # seg"
        using join_butlast [OF False, of "[BSL]"] multi by (simp add: seg_def pre_def)
      have nb: "\<forall>seg \<in> set (butlast reals). seg \<noteq> []"
        using nonempty by (auto dest: in_set_butlastD)
      have prene: "join [BSL] (butlast reals) \<noteq> []" by (rule join_nonempty [OF multi nb])
      have lopre: "int (length rt) \<le> int (length pre)" by (simp add: pre_def)
      obtain st' where st': "ext_scan isPathSeparator ((pre @ [BSL]) @ seg @ []) (int (length rt))
            (length (pre @ [BSL]) + length seg) ?st0
          = ext_scan isPathSeparator ((pre @ [BSL]) @ seg @ []) (int (length rt))
              (length (pre @ [BSL])) st'"
        "scan_end st' = int (length (pre @ [BSL]) + length seg)"
        "startPart st' = int (length rt)" "\<not> scan_matchedSlash st'"
        using ext_scan_over_segment [where isSep = isPathSeparator and st = ?st0
            and post = "[]", OF seg(2) _ seg(1), of "int (length rt)" "pre @ [BSL]"] lopre
        by auto
      have brk: "ext_scan isPathSeparator (pre @ BSL # seg) (int (length rt)) (Suc (length pre)) st'
          = st'\<lparr>startPart := int (length pre) + 1\<rparr>"
        by (rule ext_scan_break [OF _ st'(4) lopre]) simp
      have scan: "ext_scan isPathSeparator (pre @ BSL # seg) (int (length rt))
            (length (pre @ BSL # seg)) ?st0 = st'\<lparr>startPart := int (length pre) + 1\<rparr>"
        using st'(1) brk by (simp del: ext_scan.simps)
      have b: "slice (pre @ BSL # seg) (int (length pre) + 1)
            (int (length (pre @ [BSL]) + length seg)) = seg"
        using slice_suffix [of "pre @ [BSL]" seg] by (simp add: add.commute)
      have d: "slice (pre @ BSL # seg) 0 (int (length pre)) = pre"
        by (rule slice_prefix)
      have lt: "length rt < length pre" using prene by (simp add: pre_def)
      note f = winParse_string_fields [OF len root scan [folded p]]
      have r: "root (winParse_string ?p) = rt" "dir (winParse_string ?p) = pre"
        "base (winParse_string ?p) = seg"
        using f(1,2,3) rt0 st'(2,3) b [folded p] d [folded p] lt by simp_all
      have "pre \<noteq> []" "pre \<noteq> rt" using prene by (simp_all add: pre_def)
      then show ?thesis unfolding winFormat_def format_parsed r using seg(1) p by simp
    qed
  qed
qed

lemma winParse_root_drive_only:
  assumes "drive_device d"
  shows "winParse_root (d @ [BSL]) = None"
proof -
  obtain x where x: "isWindowsDeviceRoot (Some (of_char x))" and d: "d = [x, CHR '':'']"
    using assms unfolding drive_device_def by blast
  have ns: "\<not> wsep x" by (rule drive_letter_no_separator [OF x])
  show ?thesis
    using x ns unfolding winParse_root_def d
    by (simp add: Let_def)
qed

lemma windows_round_trip:
  assumes "windows_plain p"
  shows "winFormat (parsed_object (winParse_string p)) = Inr p \<and> winNormalize_string p = p"
proof -
  obtain dev ab reals where
    p: "p = (case dev of None \<Rightarrow> [] | Some d \<Rightarrow> d) @ (if ab then [BSL] else []) @
            join [BSL] reals"
    and reals: "list_all (real_segment wsep) reals"
    and dv: "case dev of None \<Rightarrow> True | Some d \<Rightarrow> (unc_device d \<and> ab) \<or> drive_device d"
    and ne: "\<not> ab \<longrightarrow> reals \<noteq> []"
    and nd: "dev = None \<and> \<not> ab \<longrightarrow> \<not> has_drive_prefix p"
    using assms unfolding windows_plain_def by blast
  have nonempty: "\<forall>seg \<in> set reals. seg \<noteq> []" by (rule real_segments_nonempty [OF reals])
  have free: "\<forall>seg \<in> set reals. list_all (\<lambda>c. \<not> wsep c) seg"
    by (rule real_segments_free [OF reals])
  have free': "\<forall>seg \<in> set reals. list_all (\<lambda>c. \<not> char_is_separator isPathSeparator c) seg"
    using free by (simp add: windows_separator)
  have asm: "win_assemble dev ab reals False = p"
    using ne by (auto simp: win_assemble_def win_tail_def p)
  have norm: "winNormalize_string p = p"
    using winNormalize_string_fixed [OF dv real_segments_normal [OF reals] free', of False] nd
    unfolding asm by simp
  have hdj: "reals \<noteq> [] \<Longrightarrow> join [BSL] reals \<noteq> [] \<and> \<not> wsep (hd (join [BSL] reals))"
    using join_free_ends [of reals wsep "[BSL]"] join_nonempty [of reals "[BSL]"] nonempty free
    by simp
  have fmt: "winFormat (parsed_object (winParse_string p)) = Inr p"
  proof (cases dev)
    case (Some d)
    show ?thesis
    proof (cases ab)
      case True
      have p': "p = (d @ [BSL]) @ join [BSL] reals" using p Some True by simp
      from dv Some consider (unc) "unc_device d" | (drive) "drive_device d" by auto
      then show ?thesis
      proof cases
        case unc
        have root: "winParse_root ((d @ [BSL]) @ join [BSL] reals) = Some (length (d @ [BSL]))"
          using winParse_root_unc [OF unc, of "join [BSL] reals"] by simp
        have len: "2 \<le> length ((d @ [BSL]) @ join [BSL] reals)"
          using unc_device_length [OF unc] by simp
        show ?thesis unfolding p' by (rule windows_format_parse [OF len root reals])
      next
        case drive
        show ?thesis
        proof (cases "reals = []")
          case True
          have len: "length (d @ [BSL]) \<noteq> 0" "length (d @ [BSL]) \<noteq> 1"
            using drive_device_length [OF drive] by simp_all
          have "winParse_string (d @ [BSL])
              = \<lparr>root = d @ [BSL], dir = d @ [BSL], base = [], ext = [], name = []\<rparr>"
            unfolding winParse_string_def
            by (simp only: Let_def len if_False winParse_root_drive_only [OF drive] option.case)
              simp
          then show ?thesis using True unfolding p' winFormat_def format_parsed
            by (simp add: formatExt_def)
        next
          case False
          have root: "winParse_root ((d @ [BSL]) @ join [BSL] reals) = Some (length (d @ [BSL]))"
            using winParse_root_drive_absolute [OF drive, of "join [BSL] reals"] hdj [OF False]
              drive_device_length [OF drive]
            by simp
          have len: "2 \<le> length ((d @ [BSL]) @ join [BSL] reals)"
            using drive_device_length [OF drive] by simp
          show ?thesis unfolding p' by (rule windows_format_parse [OF len root reals])
        qed
      qed
    next
      case False
      then have drive: "drive_device d" and rne: "reals \<noteq> []" using dv Some ne by auto
      have p': "p = d @ join [BSL] reals" using p Some False by simp
      obtain c rest where j: "join [BSL] reals = c # rest" "\<not> wsep c"
        using hdj [OF rne] by (cases "join [BSL] reals") auto
      have root: "winParse_root (d @ join [BSL] reals) = Some (length d)"
        using winParse_root_drive_relative [OF drive j(2), of rest] j(1)
          drive_device_length [OF drive]
        by simp
      have len: "2 \<le> length (d @ join [BSL] reals)"
        using drive_device_length [OF drive] by simp
      show ?thesis unfolding p' by (rule windows_format_parse [OF len root reals])
    qed
  next
    case None
    show ?thesis
    proof (cases ab)
      case True
      have p': "p = [BSL] @ join [BSL] reals" using p None True by simp
      show ?thesis
      proof (cases "reals = []")
        case True
        have "winFormat (parsed_object (winParse_string [BSL])) = Inr [BSL]" by code_simp
        then show ?thesis using True p' by simp
      next
        case False
        obtain c rest where j: "join [BSL] reals = c # rest" "\<not> wsep c"
          using hdj [OF False] by (cases "join [BSL] reals") auto
        have root: "winParse_root ([BSL] @ join [BSL] reals) = Some (length [BSL])"
          using winParse_root_rooted [OF j(2), of rest] j(1) by simp
        have len: "2 \<le> length ([BSL] @ join [BSL] reals)" using j(1) by simp
        show ?thesis unfolding p' by (rule windows_format_parse [OF len root reals])
      qed
    next
      case False
      then have rne: "reals \<noteq> []" using ne by simp
      have p': "p = [] @ join [BSL] reals" using p None False by simp
      obtain c rest where j: "join [BSL] reals = c # rest" "\<not> wsep c"
        using hdj [OF rne] by (cases "join [BSL] reals") auto
      show ?thesis
      proof (cases rest)
        case Nil
        have "winParse_string [c] = \<lparr>root = [], dir = [], base = [c], ext = [], name = [c]\<rparr>"
          using j(2) by (simp add: winParse_string_def)
        then show ?thesis using p' j(1) Nil unfolding winFormat_def format_parsed by simp
      next
        case (Cons e rest')
        have ndp: "\<not> has_drive_prefix (c # e # rest')"
          using nd None False p' j(1) Cons by simp
        have root: "winParse_root ([] @ join [BSL] reals) = Some (length ([] :: string))"
          using winParse_root_plain [OF j(2) ndp] j(1) Cons by simp
        have len: "2 \<le> length ([] @ join [BSL] reals)" using j(1) Cons by simp
        show ?thesis unfolding p' by (rule windows_format_parse [OF len root reals])
      qed
    qed
  qed
  show ?thesis using fmt norm by simp
qed

text \<open>
  C3, amended. For every path that is not empty and is a root followed by segments joined
  by single separators, none of them empty, \<open>.\<close> or \<open>..\<close>, with at least one segment
  unless the root ends in a separator (on Windows with backslashes as the only
  separators), \<open>format(parse(p))\<close> and \<open>normalize(p)\<close> are both \<open>p\<close>, in each engine
  with its own \<open>parse\<close>, \<open>format\<close> and \<open>normalize\<close>.
\<close>

theorem format_parse_round_trip:
  "(posix_plain p \<longrightarrow>
      (\<exists>r. posParse (JSString p) = Inr r \<and> posFormat (parsed_object r) = Inr p) \<and>
      posNormalize (JSString p) = Inr p) \<and>
   (windows_plain p \<longrightarrow>
      (\<exists>r. winParse (JSString p) = Inr r \<and> winFormat (parsed_object r) = Inr p) \<and>
      winNormalize (JSString p) = Inr p)"
proof (intro conjI impI)
  assume "posix_plain p"
  then obtain rt reals where "p = rt @ join ''/'' reals"
    "list_all (real_segment (\<lambda>c. c = CHR ''/'')) reals" "rt = ''/'' \<or> (rt = [] \<and> reals \<noteq> [])"
    unfolding posix_plain_def by blast
  then have r: "posFormat (parsed_object (posParse_string p)) = Inr p \<and> posNormalize_string p = p"
    using posix_round_trip [of reals rt] by simp
  show "\<exists>r. posParse (JSString p) = Inr r \<and> posFormat (parsed_object r) = Inr p"
    using r by (simp add: posParse_def)
  show "posNormalize (JSString p) = Inr p" using r by (simp add: posNormalize_def)
next
  assume "windows_plain p"
  then have r: "winFormat (parsed_object (winParse_string p)) = Inr p \<and> winNormalize_string p = p"
    by (rule windows_round_trip)
  show "\<exists>r. winParse (JSString p) = Inr r \<and> winFormat (parsed_object r) = Inr p"
    using r by (simp add: winParse_def)
  show "winNormalize (JSString p) = Inr p" using r by (simp add: winNormalize_def)
qed

theorem format_parse_round_trip_witness:
  "posix_plain ''/home/user/file.txt'' \<and>
   posParse (JSString ''/home/user/file.txt'')
     = Inr \<lparr>root = ''/'', dir = ''/home/user'', base = ''file.txt'', ext = ''.txt'',
            name = ''file''\<rparr> \<and>
   posFormat (parsed_object \<lparr>root = ''/'', dir = ''/home/user'', base = ''file.txt'',
                              ext = ''.txt'', name = ''file''\<rparr>) = Inr ''/home/user/file.txt'' \<and>
   posNormalize (JSString ''/home/user/file.txt'') = Inr ''/home/user/file.txt'' \<and>
   windows_plain (''C:'' @ [BSL] @ ''a'' @ [BSL] @ ''b.c'') \<and>
   winNormalize (JSString (''C:'' @ [BSL] @ ''a'' @ [BSL] @ ''b.c''))
     = Inr (''C:'' @ [BSL] @ ''a'' @ [BSL] @ ''b.c'')"
proof -
  have seg: "real_segment (\<lambda>c. c = CHR ''/'') ''home''" "real_segment (\<lambda>c. c = CHR ''/'') ''user''"
    "real_segment (\<lambda>c. c = CHR ''/'') ''file.txt''"
    "real_segment wsep ''a''" "real_segment wsep ''b.c''"
    by (simp_all add: real_segment_def wsep_def)
  have 1: "posix_plain ''/home/user/file.txt''"
    unfolding posix_plain_def
    by (rule exI [of _ "''/''"], rule exI [of _ "[''home'', ''user'', ''file.txt'']"])
      (simp add: seg)
  have d: "drive_device ''C:''"
    by (simp add: drive_device_def isWindowsDeviceRoot_def)
  have 2: "windows_plain (''C:'' @ [BSL] @ ''a'' @ [BSL] @ ''b.c'')"
    unfolding windows_plain_def
    by (rule exI [of _ "Some ''C:''"], rule exI [of _ True], rule exI [of _ "[''a'', ''b.c'']"])
      (simp add: seg d)
  have 3: "posParse (JSString ''/home/user/file.txt'')
     = Inr \<lparr>root = ''/'', dir = ''/home/user'', base = ''file.txt'', ext = ''.txt'',
            name = ''file''\<rparr>"
    by code_simp
  show ?thesis
    using format_parse_round_trip [of "''/home/user/file.txt''"]
      format_parse_round_trip [of "''C:'' @ [BSL] @ ''a'' @ [BSL] @ ''b.c''"] 1 2 3
    by simp
qed

theorem format_parse_round_trip_counterexample:
  "posParse (JSString []) = Inr \<lparr>root = [], dir = [], base = [], ext = [], name = []\<rparr> \<and>
   posFormat (parsed_object \<lparr>root = [], dir = [], base = [], ext = [], name = []\<rparr>) = Inr [] \<and>
   posNormalize (JSString []) = Inr ''.'' \<and>
   winParse (JSString ''C:'') = Inr \<lparr>root = ''C:'', dir = ''C:'', base = [], ext = [], name = []\<rparr> \<and>
   winFormat (parsed_object \<lparr>root = ''C:'', dir = ''C:'', base = [], ext = [], name = []\<rparr>)
     = Inr ''C:'' \<and>
   winNormalize (JSString ''C:'') = Inr ''C:.'' \<and>
   winParse (JSString ''/a'') = Inr \<lparr>root = ''/'', dir = ''/'', base = ''a'', ext = [], name = ''a''\<rparr> \<and>
   winFormat (parsed_object \<lparr>root = ''/'', dir = ''/'', base = ''a'', ext = [], name = ''a''\<rparr>)
     = Inr ''/a'' \<and>
   winNormalize (JSString ''/a'') = Inr (BSL # ''a'')"
proof -
  have 1: "posParse (JSString []) = Inr \<lparr>root = [], dir = [], base = [], ext = [], name = []\<rparr>"
    by code_simp
  have 2: "posFormat (parsed_object \<lparr>root = [], dir = [], base = [], ext = [], name = []\<rparr>)
      = Inr []" by code_simp
  have 3: "posNormalize (JSString []) = Inr ''.''" by code_simp
  have 4: "winParse (JSString ''C:'')
      = Inr \<lparr>root = ''C:'', dir = ''C:'', base = [], ext = [], name = []\<rparr>" by code_simp
  have 5: "winFormat (parsed_object \<lparr>root = ''C:'', dir = ''C:'', base = [], ext = [], name = []\<rparr>)
     = Inr ''C:''" by code_simp
  have 6: "winNormalize (JSString ''C:'') = Inr ''C:.''" by code_simp
  have 7: "winParse (JSString ''/a'')
      = Inr \<lparr>root = ''/'', dir = ''/'', base = ''a'', ext = [], name = ''a''\<rparr>" by code_simp
  have 8: "winFormat (parsed_object \<lparr>root = ''/'', dir = ''/'', base = ''a'', ext = [], name = ''a''\<rparr>)
     = Inr ''/a''" by code_simp
  have 9: "winNormalize (JSString ''/a'') = Inr (BSL # ''a'')" by code_simp
  show ?thesis using 1 2 3 4 5 6 7 8 9 by simp
qed

subsection \<open>relative\<close>





lemma common_prefix_same [simp]: "common_prefix_length xs xs = length xs"
  by (induction xs) auto






lemma length_join_Cons: "length x \<le> length (join sp (x # xs))"
  by (cases xs) auto

lemma join_Cons: "join sp (x # xs) = (if xs = [] then x else x @ sp @ join sp xs)"
  by (cases xs) auto

lemma plain_segments_Cons [simp]:
  "plain_segments s (x # xs) \<longleftrightarrow> x \<noteq> [] \<and> s \<notin> set x \<and> plain_segments s xs"
  by (simp add: plain_segments_def)

lemma plain_segments_Nil [simp]: "plain_segments s []"
  by (simp add: plain_segments_def)

lemma hd_join_plain:
  "plain_segments s xs \<Longrightarrow> xs \<noteq> [] \<Longrightarrow> join [s] xs \<noteq> [] \<and> hd (join [s] xs) \<noteq> s"
  by (cases xs) (auto simp: join_Cons hd_append)
























lemma charCodeAt_slash_end:
  "charCodeAt (c # F) (1 + int (length F)) = None"
  using charCodeAt_int [of "c # F" "Suc (length F)"] by simp





lemma lower_char_BSL: "lower_char c = BSL \<longleftrightarrow> c = BSL"
proof (cases "(65 \<le> (of_char c :: nat) \<and> (of_char c :: nat) \<le> 90) \<or>
              (192 \<le> (of_char c :: nat) \<and> (of_char c :: nat) \<le> 222 \<and> (of_char c :: nat) \<noteq> 215)")
  case False
  show ?thesis unfolding lower_char_def Let_def by (simp only: False if_False)
next
  case True
  then have lc: "lower_char c = char_of ((of_char c :: nat) + 32)"
    by (simp add: lower_char_def Let_def)
  have "(of_char (lower_char c) :: nat) = ((of_char c :: nat) + 32) mod 256"
    unfolding lc by (simp only: of_char_of)
  moreover have "((of_char c :: nat) + 32) mod 256 \<noteq> 92" using True by auto
  ultimately have "lower_char c \<noteq> BSL" by (metis of_char_92)
  moreover have "c \<noteq> BSL" using True of_char_92 [of c] by auto
  ultimately show ?thesis by simp
qed

lemma lower_char_backslash [simp]: "lower_char BSL = BSL"
  using lower_char_BSL [of BSL] by simp

lemma toLowerCase_Cons [simp]: "toLowerCase (c # cs) = lower_char c # toLowerCase cs"
  by (simp add: toLowerCase_def)

lemma toLowerCase_Nil [simp]: "toLowerCase [] = []"
  by (simp add: toLowerCase_def)

lemma toLowerCase_append [simp]: "toLowerCase (xs @ ys) = toLowerCase xs @ toLowerCase ys"
  by (simp add: toLowerCase_def)


lemma toLowerCase_backslashes [simp]: "toLowerCase (replicate n BSL) = replicate n BSL"
  by (simp add: toLowerCase_def)




























subsection \<open>What winResolve returns\<close>

lemma winResolve_root_device:
  assumes "winResolve_root p = (n, d, ab)"
  shows "d = [] \<or> drive_device d \<or> (unc_device d \<and> ab)"
proof (cases "d = []")
  case True
  then show ?thesis by simp
next
  case False
  show ?thesis
  proof (cases "isPathSeparator (charCodeAt p 0)")
    case True
    note sep0 = this
    have l1: "length p \<noteq> 1" using assms False sep0 by (auto simp: winResolve_root_def Let_def)
    have sep1: "isPathSeparator (charCodeAt p 1)"
      using assms False sep0 l1 by (auto simp: winResolve_root_def Let_def split: if_splits)
    then have len: "2 \<le> length p"
      by (cases "charCodeAt p 1") (auto simp: charCodeAt_def split: if_splits)
    define j where "j = skip_non_separators p 2"
    define j2 where "j2 = skip_separators p j"
    define j3 where "j3 = skip_non_separators p j2"
    have c: "j < length p \<and> j \<noteq> 2 \<and> j2 < length p \<and> j2 \<noteq> j \<and> (j3 = length p \<or> j3 \<noteq> j2)"
      using assms False sep0 sep1 l1
      by (auto simp: winResolve_root_def Let_def j_def j2_def j3_def split: if_splits)
    then have j32: "j3 \<noteq> j2" by auto
    have d: "d = BSL # BSL # slice p 2 (int j) @ BSL # slice p (int j2) (int j3)" and ab: "ab"
      using assms sep0 sep1 l1 c
      by (auto simp: winResolve_root_def Let_def j_def j2_def j3_def split: if_splits)
    have "unc_device d"
      unfolding d using unc_parts [OF len j_def _ _ j2_def _ j3_def j32] c by simp
    then show ?thesis using ab by simp
  next
    case False
    note nsep = this
    have l1: "length p \<noteq> 1" using assms \<open>d \<noteq> []\<close> by (auto simp: winResolve_root_def Let_def split: if_splits)
    have dr: "isWindowsDeviceRoot (charCodeAt p 0)" "charCodeAt p 1 = Some CHAR_COLON"
      using assms \<open>d \<noteq> []\<close> nsep l1 by (auto simp: winResolve_root_def Let_def split: if_splits)
    then obtain a b rest where p: "p = a # b # rest"
      by (cases p; cases "tl p") (auto simp: charCodeAt_def)
    have b: "b = CHR '':''" using dr(2) p by (simp add: of_char_58)
    have "d = slice p 0 2"
      using assms nsep l1 dr by (auto simp: winResolve_root_def Let_def split: if_splits)
    then have "d = [a, CHR '':'']" using p b by (simp add: slice_def)
    moreover have "isWindowsDeviceRoot (Some (of_char a))" using dr(1) p by simp
    ultimately show ?thesis by (auto simp: drive_device_def)
  qed
qed

lemma winResolve_step_device:
  assumes step: "winResolve_step p st = (st', brk)"
    and inv: "resolvedDevice st = [] \<or> drive_device (resolvedDevice st) \<or>
              (unc_device (resolvedDevice st) \<and> resolvedAbsolute st)"
  shows "resolvedDevice st' = [] \<or> drive_device (resolvedDevice st') \<or>
         (unc_device (resolvedDevice st') \<and> resolvedAbsolute st')"
proof -
  obtain n d ab where root: "winResolve_root p = (n, d, ab)" by (cases "winResolve_root p") auto
  note dev = winResolve_root_device [OF root]
  show ?thesis
    using step inv dev root
    by (auto simp: winResolve_step_def Let_def split: if_splits)
qed

lemma winResolve_loop_device:
  "resolvedDevice st = [] \<or> drive_device (resolvedDevice st) \<or>
     (unc_device (resolvedDevice st) \<and> resolvedAbsolute st) \<Longrightarrow>
   winResolve_loop h args k st = Inr st' \<Longrightarrow>
   resolvedDevice st' = [] \<or> drive_device (resolvedDevice st') \<or>
     (unc_device (resolvedDevice st') \<and> resolvedAbsolute st')"
proof (induction k arbitrary: st)
  case 0
  obtain path where path: "winResolve_cwd h (resolvedDevice st) = Inr path"
    using 0(2) by (cases "winResolve_cwd h (resolvedDevice st)") auto
  obtain s b where sb: "winResolve_step path st = (s, b)" by (cases "winResolve_step path st") auto
  have "st' = s" using 0(2) path sb by simp
  then show ?case using winResolve_step_device [OF sb 0(1)] by simp
next
  case (Suc k)
  obtain q where q: "validateString (args ! k) (paths_name (int k)) = Inr q"
    using Suc.prems(2) by (cases "validateString (args ! k) (paths_name (int k))") auto
  show ?case
  proof (cases "length q = 0")
    case True
    then show ?thesis using Suc q by simp
  next
    case False
    obtain s b where sb: "winResolve_step q st = (s, b)" by (cases "winResolve_step q st") auto
    note inv = winResolve_step_device [OF sb Suc.prems(1)]
    show ?thesis
    proof (cases b)
      case True
      then have "st' = s" using Suc.prems(2) q False sb by simp
      then show ?thesis using inv by simp
    next
      case nb: False
      then have "winResolve_loop h args k s = Inr st'" using Suc.prems(2) q False sb by simp
      then show ?thesis using Suc.IH [OF inv] by simp
    qed
  qed
qed

lemma kept_plain_windows:
  "plain_segments BSL (kept_segments acc allow isPathSeparator)"
proof -
  have "seg \<noteq> [] \<and> BSL \<notin> set seg"
    if seg: "seg \<in> set (kept_segments acc allow isPathSeparator)" for seg
  proof
    show "seg \<noteq> []" using kept_nonempty [of acc allow isPathSeparator] seg by blast
    have "list_all (\<lambda>c. \<not> char_is_separator isPathSeparator c) seg"
      using kept_free [of acc allow isPathSeparator] seg by blast
    then have "\<forall>c \<in> set seg. \<not> wsep c" unfolding windows_separator list_all_iff .
    then show "BSL \<notin> set seg" using wsep_BSL by blast
  qed
  then show ?thesis unfolding plain_segments_def list_all_iff by blast
qed

text \<open>What \<open>winResolve\<close> can return: a device, a backslash when absolute, and segments.\<close>

lemma winResolve_shape:
  assumes "winResolve h args = Inr r"
  shows "\<exists>dev ab kept.
           (dev = [] \<or> drive_device dev \<or> (unc_device dev \<and> ab)) \<and>
           plain_segments BSL kept \<and>
           r = (if ab then dev @ BSL # join [BSL] kept
                else if dev @ join [BSL] kept = [] then ''.'' else dev @ join [BSL] kept)"
proof -
  let ?st0 = "\<lparr>resolvedDevice = [], resolvedTail = [], resolvedAbsolute = False\<rparr> :: wr_state"
  obtain st where st: "winResolve_loop h args (length args) ?st0 = Inr st"
    using assms by (cases "winResolve_loop h args (length args) ?st0") (auto simp: winResolve_def)
  have inv: "resolvedDevice st = [] \<or> drive_device (resolvedDevice st) \<or>
     (unc_device (resolvedDevice st) \<and> resolvedAbsolute st)"
    using winResolve_loop_device [OF _ st] by simp
  define kept where "kept = kept_segments (resolvedTail st) (\<not> resolvedAbsolute st) isPathSeparator"
  have pl: "plain_segments BSL kept" unfolding kept_def by (rule kept_plain_windows)
  have "r = (if resolvedAbsolute st then resolvedDevice st @ BSL # join [BSL] kept
                else if resolvedDevice st @ join [BSL] kept = [] then ''.''
                else resolvedDevice st @ join [BSL] kept)"
    using assms st by (auto simp: winResolve_def Let_def windows_normalizeString_kept kept_def)
  then show ?thesis using inv pl by blast
qed

subsection \<open>toNamespacedPath\<close>

lemma not_device_root_backslash: "\<not> isWindowsDeviceRoot (Some (of_char BSL))"
  using drive_letter_no_separator [of BSL] wsep_BSL by blast

lemma join_drive_prefix:
  assumes pl: "plain_segments BSL kept"
    and j: "join [BSL] kept = a # b # BSL # rest" and a: "a \<noteq> BSL" and b: "b \<noteq> BSL"
  shows "\<exists>more. kept = [a, b] # more \<and> rest = join [BSL] more"
proof (cases kept)
  case Nil
  then show ?thesis using j by simp
next
  case (Cons s more)
  have s: "s \<noteq> []" "BSL \<notin> set s" using pl Cons by simp_all
  show ?thesis
  proof (cases "more = []")
    case True
    then have "s = a # b # BSL # rest" using j Cons by simp
    then show ?thesis using s(2) by simp
  next
    case False
    then have e: "s @ BSL # join [BSL] more = a # b # BSL # rest"
      using j Cons by (simp add: join_Cons)
    show ?thesis
    proof (cases s)
      case Nil
      then show ?thesis using s(1) by simp
    next
      case c1: (Cons x1 s1)
      show ?thesis
      proof (cases s1)
        case Nil
        then show ?thesis using e c1 b by simp
      next
        case c2: (Cons x2 s2)
        show ?thesis
        proof (cases s2)
          case Nil
          then show ?thesis using e c1 c2 Cons by simp
        next
          case (Cons x3 s3)
          then show ?thesis using e c1 c2 s(2) by simp
        qed
      qed
    qed
  qed
qed

lemma unc_rooted_chars:
  assumes "unc_rooted r"
  shows "\<exists>c rest. r = BSL # BSL # c # rest"
proof -
  obtain d reals where d: "unc_device d" "r = d @ BSL # join [BSL] reals"
    using assms unfolding unc_rooted_def by blast
  obtain f g where fg: "f \<noteq> []" "d = BSL # BSL # f @ BSL # g"
    using d(1) unfolding unc_device_def by blast
  obtain c f' where "f = c # f'" using fg(1) by (cases f) auto
  then show ?thesis using d(2) fg(2) by simp
qed

lemma drive_rooted_chars:
  assumes "drive_rooted r"
  shows "\<exists>x rest. r = x # CHR '':'' # BSL # rest \<and> isWindowsDeviceRoot (Some (of_char x))"
proof -
  obtain d reals where d: "drive_device d" "r = d @ BSL # join [BSL] reals"
    using assms unfolding drive_rooted_def by blast
  obtain x where "isWindowsDeviceRoot (Some (of_char x))" "d = [x, CHR '':'']"
    using d(1) unfolding drive_device_def by blast
  then show ?thesis using d(2) by simp
qed

lemma winResolve_unc_rooted:
  assumes res: "winResolve h args = Inr r" and r: "r = BSL # BSL # rest"
  shows "unc_rooted r"
proof -
  obtain dev ab kept where sh:
      "dev = [] \<or> drive_device dev \<or> (unc_device dev \<and> ab)" "plain_segments BSL kept"
      "r = (if ab then dev @ BSL # join [BSL] kept
            else if dev @ join [BSL] kept = [] then ''.'' else dev @ join [BSL] kept)"
    using winResolve_shape [OF res] by blast
  have hdk: "kept \<noteq> [] \<Longrightarrow> join [BSL] kept \<noteq> [] \<and> hd (join [BSL] kept) \<noteq> BSL"
    using hd_join_plain [OF sh(2)] by simp
  consider (e) "dev = []" | (d) "drive_device dev" | (u) "unc_device dev" "ab" using sh(1) by blast
  then show ?thesis
  proof cases
    case e
    show ?thesis
    proof (cases "kept = []")
      case True
      then show ?thesis using sh(3) e r by (auto split: if_splits)
    next
      case False
      then obtain c cs where "join [BSL] kept = c # cs" "c \<noteq> BSL"
        using hdk by (cases "join [BSL] kept") auto
      then show ?thesis using sh(3) e r by (auto split: if_splits)
    qed
  next
    case d
    then obtain x where "isWindowsDeviceRoot (Some (of_char x))" "dev = [x, CHR '':'']"
      unfolding drive_device_def by blast
    then show ?thesis using sh(3) r not_device_root_backslash by (auto split: if_splits)
  next
    case u
    then have "r = dev @ BSL # join [BSL] kept" using sh(3) by simp
    then show ?thesis unfolding unc_rooted_def using u(1) sh(2) by blast
  qed
qed

lemma winResolve_drive_rooted:
  assumes res: "winResolve h args = Inr r" and r: "r = x # CHR '':'' # BSL # rest"
    and x: "isWindowsDeviceRoot (Some (of_char x))"
  shows "drive_rooted r"
proof -
  obtain dev ab kept where sh:
      "dev = [] \<or> drive_device dev \<or> (unc_device dev \<and> ab)" "plain_segments BSL kept"
      "r = (if ab then dev @ BSL # join [BSL] kept
            else if dev @ join [BSL] kept = [] then ''.'' else dev @ join [BSL] kept)"
    using winResolve_shape [OF res] by blast
  have xb: "x \<noteq> BSL" using x not_device_root_backslash by auto
  have hdk: "kept \<noteq> [] \<Longrightarrow> join [BSL] kept \<noteq> [] \<and> hd (join [BSL] kept) \<noteq> BSL"
    using hd_join_plain [OF sh(2)] by simp
  consider (e) "dev = []" | (d) "drive_device dev" | (u) "unc_device dev" "ab" using sh(1) by blast
  then show ?thesis
  proof cases
    case e
    show ?thesis
    proof (cases ab)
      case True
      then show ?thesis using sh(3) e r xb by simp
    next
      case False
      then have "join [BSL] kept = x # CHR '':'' # BSL # rest"
        using sh(3) e r by (auto split: if_splits)
      then obtain more where m: "kept = [x, CHR '':''] # more" "rest = join [BSL] more"
        using join_drive_prefix [OF sh(2) _ xb] by auto
      have "drive_device [x, CHR '':'']" unfolding drive_device_def using x by blast
      moreover have "plain_segments BSL more" using sh(2) m(1) by simp
      ultimately show ?thesis unfolding drive_rooted_def using r m(2) by force
    qed
  next
    case d
    then obtain y where y: "dev = [y, CHR '':'']" unfolding drive_device_def by blast
    show ?thesis
    proof (cases ab)
      case True
      then have "r = dev @ BSL # join [BSL] kept" using sh(3) by simp
      then show ?thesis unfolding drive_rooted_def using d sh(2) by blast
    next
      case False
      then have "r = dev @ join [BSL] kept" using sh(3) y by simp
      then have "join [BSL] kept = BSL # rest" using r y by simp
      then show ?thesis using hdk by (cases "kept = []") auto
    qed
  next
    case u
    then obtain f g where "dev = BSL # BSL # f @ BSL # g" unfolding unc_device_def by blast
    then show ?thesis using sh(3) u(2) r xb by simp
  qed
qed

text \<open>
  \<open>winToNamespacedPath\<close> on a path that is not empty, from what \<open>winResolve\<close> returned.
\<close>

lemma winToNamespacedPath_resolved:
  assumes p: "p \<noteq> []" and res: "winResolve h [JSString p] = Inr r"
  shows "winToNamespacedPath h (JSString p) =
     Inr (JSString
       (if unc_rooted r \<and> r ! 2 \<noteq> CHR ''?'' \<and> r ! 2 \<noteq> CHR ''.''
        then [BSL, BSL] @ ''?'' @ [BSL] @ ''UNC'' @ [BSL] @ drop 2 r
        else if drive_rooted r then [BSL, BSL] @ ''?'' @ [BSL] @ r
        else p))"
proof (cases "length r \<le> 2")
  case True
  have "\<not> unc_rooted r" using unc_rooted_chars [of r] True by auto
  moreover have "\<not> drive_rooted r" using drive_rooted_chars [of r] True by auto
  ultimately show ?thesis using True p res by (simp add: winToNamespacedPath_def)
next
  case False
  then obtain a b c rest where rr: "r = a # b # c # rest"
    by (cases r; cases "tl r"; cases "tl (tl r)") auto
  have code: "winToNamespacedPath h (JSString p) =
      (if a = BSL then
         (if b = BSL \<and> c \<noteq> CHR ''?'' \<and> c \<noteq> CHR ''.''
          then Inr (JSString ([BSL, BSL] @ ''?'' @ [BSL] @ ''UNC'' @ [BSL] @ drop 2 r))
          else Inr (JSString p))
       else if isWindowsDeviceRoot (Some (of_char a)) \<and> b = CHR '':'' \<and> c = BSL
       then Inr (JSString ([BSL, BSL] @ ''?'' @ [BSL] @ r))
       else Inr (JSString p))"
    using p res by (simp add: winToNamespacedPath_def rr of_char_codes slice_from_2)
  have unc_iff: "unc_rooted r \<longleftrightarrow> a = BSL \<and> b = BSL"
  proof
    assume "unc_rooted r"
    then show "a = BSL \<and> b = BSL" using unc_rooted_chars [of r] rr by auto
  next
    assume "a = BSL \<and> b = BSL"
    then show "unc_rooted r" using winResolve_unc_rooted [OF res, of "c # rest"] rr by simp
  qed
  have drive_iff: "drive_rooted r \<longleftrightarrow>
      isWindowsDeviceRoot (Some (of_char a)) \<and> b = CHR '':'' \<and> c = BSL"
  proof
    assume "drive_rooted r"
    then show "isWindowsDeviceRoot (Some (of_char a)) \<and> b = CHR '':'' \<and> c = BSL"
      using drive_rooted_chars [of r] rr by auto
  next
    assume "isWindowsDeviceRoot (Some (of_char a)) \<and> b = CHR '':'' \<and> c = BSL"
    then show "drive_rooted r" using winResolve_drive_rooted [OF res, of a rest] rr by simp
  qed
  have c2: "r ! 2 = c" using rr by simp
  have excl: "a = BSL \<Longrightarrow> \<not> isWindowsDeviceRoot (Some (of_char a))"
    using not_device_root_backslash by simp
  show ?thesis unfolding code unc_iff drive_iff c2 using excl by auto
qed

lemma winResolve_without_environment:
  "winResolve browser_host [JSString ''C:foo''] = Inl NativeTypeError \<and>
   winToNamespacedPath browser_host (JSString ''C:foo'') = Inl NativeTypeError"
  by code_simp

text \<open>
  C6, amended. \<open>winToNamespacedPath\<close> of a string that is not empty resolves it first,
  which returns on every host that has an environment. When the resolved path is UNC-rooted
  (two backslashes, a server, a backslash, a share, a backslash and segments) and its
  server name starts neither with \<open>?\<close> nor with \<open>.\<close>, the result is two backslashes,
  \<open>?\<close>, a backslash, \<open>UNC\<close> and a backslash, followed by the resolved path without its two
  leading backslashes. When the resolved path is drive-rooted (a drive letter, a colon, a
  backslash and segments), the result is two backslashes, \<open>?\<close> and a backslash, followed
  by the resolved path. Every other input comes back unchanged: a UNC root whose server
  name starts with \<open>?\<close> or \<open>.\<close>, any other resolved path, the empty string, and a value
  that is not a string. And the path \<open>C:\<close>, backslash, \<open>foo\<close> is mapped to that path
  behind two backslashes, \<open>?\<close> and a backslash, on every host.
\<close>

theorem winToNamespacedPath_cases:
  "(env h \<noteq> None \<longrightarrow> (\<exists>r. winResolve h [JSString p] = Inr r)) \<and>
   (p \<noteq> [] \<and> winResolve h [JSString p] = Inr r \<longrightarrow>
      winToNamespacedPath h (JSString p) =
        Inr (JSString
          (if unc_rooted r \<and> r ! 2 \<noteq> CHR ''?'' \<and> r ! 2 \<noteq> CHR ''.''
           then [BSL, BSL] @ ''?'' @ [BSL] @ ''UNC'' @ [BSL] @ drop 2 r
           else if drive_rooted r then [BSL, BSL] @ ''?'' @ [BSL] @ r
           else p))) \<and>
   winToNamespacedPath h (JSString []) = Inr (JSString []) \<and>
   ((\<forall>s. v \<noteq> JSString s) \<longrightarrow> winToNamespacedPath h v = Inr v) \<and>
   winToNamespacedPath h (JSString (''C:'' @ [BSL] @ ''foo''))
     = Inr (JSString ([BSL, BSL] @ ''?'' @ [BSL] @ ''C:'' @ [BSL] @ ''foo''))"
proof (intro conjI impI)
  assume "env h \<noteq> None"
  then show "\<exists>r. winResolve h [JSString p] = Inr r"
    using winResolve_strings [of h "[p]"] by simp
next
  assume "p \<noteq> [] \<and> winResolve h [JSString p] = Inr r"
  then show "winToNamespacedPath h (JSString p) =
        Inr (JSString
          (if unc_rooted r \<and> r ! 2 \<noteq> CHR ''?'' \<and> r ! 2 \<noteq> CHR ''.''
           then [BSL, BSL] @ ''?'' @ [BSL] @ ''UNC'' @ [BSL] @ drop 2 r
           else if drive_rooted r then [BSL, BSL] @ ''?'' @ [BSL] @ r
           else p))"
    using winToNamespacedPath_resolved [of p h r] by blast
next
  show "winToNamespacedPath h (JSString []) = Inr (JSString [])"
    by (simp add: winToNamespacedPath_def)
next
  assume "\<forall>s. v \<noteq> JSString s"
  then show "winToNamespacedPath h v = Inr v"
    by (cases v) (simp_all add: winToNamespacedPath_def)
next
  have r: "winResolve h [JSString (''C:'' @ [BSL] @ ''foo'')] = Inr (''C:'' @ [BSL] @ ''foo'')"
  proof -
    have r: "winResolve_root (''C:'' @ [BSL] @ ''foo'') = (3, ''C:'', True)" by code_simp
    have s: "slice_from (''C:'' @ [BSL] @ ''foo'') 3 = ''foo''" by code_simp
    have n: "normalizeString (''foo'' @ [BSL]) False [BSL] isPathSeparator = ''foo''" by code_simp
    show ?thesis using r s n
      by (simp add: winResolve_def winResolve_step_def)
  qed
  show "winToNamespacedPath h (JSString (''C:'' @ [BSL] @ ''foo''))
     = Inr (JSString ([BSL, BSL] @ ''?'' @ [BSL] @ ''C:'' @ [BSL] @ ''foo''))"
    using r by (simp add: winToNamespacedPath_def isWindowsDeviceRoot_def)
qed

theorem winToNamespacedPath_cases_witness:
  "(\<exists>r. winResolve windows_host [JSString ''C:foo''] = Inr r) \<and>
   winToNamespacedPath windows_host (JSString ''//server/share/x'')
     = Inr (JSString ([BSL, BSL] @ ''?'' @ [BSL] @ ''UNC'' @ [BSL] @ ''server'' @ [BSL] @ ''share''
                      @ [BSL] @ ''x'')) \<and>
   winToNamespacedPath windows_host (JSString ''foo'')
     = Inr (JSString ([BSL, BSL] @ ''?'' @ [BSL] @ ''C:'' @ [BSL] @ ''work'' @ [BSL] @ ''foo'')) \<and>
   winToNamespacedPath posix_host (JSString ''foo'') = Inr (JSString ''foo'') \<and>
   winToNamespacedPath windows_host (JSString ''//?/C:/foo'') = Inr (JSString ''//?/C:/foo'') \<and>
   winToNamespacedPath windows_host (JSNumber 7) = Inr (JSNumber 7)"
proof -
  let ?u = "[BSL, BSL] @ ''server'' @ [BSL] @ ''share'' @ [BSL] @ ''x''"
  let ?d = "''C:'' @ [BSL] @ ''work'' @ [BSL] @ ''foo''"
  let ?n = "[BSL] @ ''home'' @ [BSL] @ ''user'' @ [BSL] @ ''foo''"
  let ?q = "[BSL, BSL] @ ''?'' @ [BSL] @ ''C:'' @ [BSL] @ ''foo''"
  have e: "env windows_host \<noteq> None" by (simp add: windows_host_def)
  have 0: "\<exists>r. winResolve windows_host [JSString ''C:foo''] = Inr r"
    using winToNamespacedPath_cases [of windows_host "''C:foo''"] e by blast
  have r1: "winResolve windows_host [JSString ''//server/share/x''] = Inr ?u" by code_simp
  have r2: "winResolve windows_host [JSString ''foo''] = Inr ?d" by code_simp
  have r3: "winResolve posix_host [JSString ''foo''] = Inr ?n" by code_simp
  have r4: "winResolve windows_host [JSString ''//?/C:/foo''] = Inr ?q" by code_simp
  have ud: "unc_device ([BSL, BSL] @ ''server'' @ [BSL] @ ''share'')" unfolding unc_device_def
    by (rule exI [of _ "''server''"], rule exI [of _ "''share''"]) (simp add: wsep_def)
  have u1: "unc_rooted ?u" unfolding unc_rooted_def
    by (rule exI [of _ "[BSL, BSL] @ ''server'' @ [BSL] @ ''share''"], rule exI [of _ "[''x'']"])
       (use ud in simp)
  have dd: "drive_device ''C:''" unfolding drive_device_def
    by (rule exI [of _ "CHR ''C''"]) (simp add: isWindowsDeviceRoot_def)
  have d2: "drive_rooted ?d" unfolding drive_rooted_def
    by (rule exI [of _ "''C:''"], rule exI [of _ "[''work'', ''foo'']"]) (simp add: dd)
  have nd2: "\<not> unc_rooted ?d" using unc_rooted_chars [of ?d] by auto
  have n3: "\<not> unc_rooted ?n" "\<not> drive_rooted ?n"
    using unc_rooted_chars [of ?n] drive_rooted_chars [of ?n] by auto
  have n4: "\<not> drive_rooted ?q" using drive_rooted_chars [of ?q] by auto
  have 1: "winToNamespacedPath windows_host (JSString ''//server/share/x'')
     = Inr (JSString ([BSL, BSL] @ ''?'' @ [BSL] @ ''UNC'' @ [BSL] @ drop 2 ?u))"
    using winToNamespacedPath_cases [of windows_host "''//server/share/x''" ?u] r1 u1 by simp
  have 2: "winToNamespacedPath windows_host (JSString ''foo'')
     = Inr (JSString ([BSL, BSL] @ ''?'' @ [BSL] @ ?d))"
    using winToNamespacedPath_cases [of windows_host "''foo''" ?d] r2 d2 nd2 by simp
  have 3: "winToNamespacedPath posix_host (JSString ''foo'') = Inr (JSString ''foo'')"
    using winToNamespacedPath_cases [of posix_host "''foo''" ?n] r3 n3 by simp
  have 4: "winToNamespacedPath windows_host (JSString ''//?/C:/foo'') = Inr (JSString ''//?/C:/foo'')"
    using winToNamespacedPath_cases [of windows_host "''//?/C:/foo''" ?q] r4 n4 by simp
  have 5: "winToNamespacedPath windows_host (JSNumber 7) = Inr (JSNumber 7)"
    using winToNamespacedPath_cases [of windows_host "[]" _ "JSNumber 7"] by simp
  show ?thesis using 0 1 2 3 4 5 by simp
qed

theorem winToNamespacedPath_cases_counterexample:
  "winResolve windows_host [JSString ([BSL, BSL] @ ''.srv'' @ [BSL] @ ''share'' @ [BSL] @ ''x'')]
     = Inr ([BSL, BSL] @ ''.srv'' @ [BSL] @ ''share'' @ [BSL] @ ''x'') \<and>
   unc_rooted ([BSL, BSL] @ ''.srv'' @ [BSL] @ ''share'' @ [BSL] @ ''x'') \<and>
   winToNamespacedPath windows_host
       (JSString ([BSL, BSL] @ ''.srv'' @ [BSL] @ ''share'' @ [BSL] @ ''x''))
     = Inr (JSString ([BSL, BSL] @ ''.srv'' @ [BSL] @ ''share'' @ [BSL] @ ''x''))"
proof -
  let ?u = "[BSL, BSL] @ ''.srv'' @ [BSL] @ ''share'' @ [BSL] @ ''x''"
  have 1: "winResolve windows_host [JSString ?u] = Inr ?u" by code_simp
  have ud: "unc_device ([BSL, BSL] @ ''.srv'' @ [BSL] @ ''share'')" unfolding unc_device_def
    by (rule exI [of _ "''.srv''"], rule exI [of _ "''share''"]) (simp add: wsep_def)
  have 2: "unc_rooted ?u" unfolding unc_rooted_def
    by (rule exI [of _ "[BSL, BSL] @ ''.srv'' @ [BSL] @ ''share''"], rule exI [of _ "[''x'']"])
       (use ud in simp)
  have 3: "winToNamespacedPath windows_host (JSString ?u) = Inr (JSString ?u)" by code_simp
  show ?thesis using 1 2 3 by (intro conjI)
qed

subsection \<open>resolve and arguments that are not strings\<close>

lemma winResolve_step_done:
  assumes "\<not> win_done st" "winResolve_step p st = (st', brk)"
  shows "brk = win_done st'"
  using assms
  by (cases "winResolve_root p") (auto simp: winResolve_step_def win_done_def Let_def split: if_splits)

lemma win_walk_from_done: "win_done st \<Longrightarrow> win_walk_from ps st = st"
  by (cases ps) simp_all

lemma winResolve_loop_walk:
  "k \<le> length ss \<Longrightarrow> \<not> win_done st \<Longrightarrow>
   winResolve_loop h (A @ map JSString ss) (length A + k) st =
     (if win_done (win_walk_from (rev (take k ss)) st)
      then Inr (win_walk_from (rev (take k ss)) st)
      else winResolve_loop h (A @ map JSString ss) (length A)
             (win_walk_from (rev (take k ss)) st))"
proof (induction k arbitrary: st)
  case 0
  then show ?case by simp
next
  case (Suc k)
  then have k: "k < length ss" by simp
  have t: "rev (take (Suc k) ss) = ss ! k # rev (take k ss)"
    using k by (simp add: take_Suc_conv_app_nth)
  have nth: "(A @ map JSString ss) ! (length A + k) = JSString (ss ! k)"
    using k by (simp add: nth_append)
  show ?case
  proof (cases "ss ! k = []")
    case True
    then show ?thesis using Suc nth t by simp
  next
    case False
    obtain st1 brk where step: "winResolve_step (ss ! k) st = (st1, brk)"
      by (cases "winResolve_step (ss ! k) st") auto
    have brk: "brk = win_done st1" using winResolve_step_done [OF Suc.prems(2) step] .
    show ?thesis
    proof (cases brk)
      case True
      then have "win_walk_from (rev (take k ss)) st1 = st1"
        using brk win_walk_from_done by simp
      then show ?thesis using True brk Suc.prems(2) nth t False step by simp
    next
      case nb: False
      then have nd: "\<not> win_done st1" using brk by simp
      have "winResolve_loop h (A @ map JSString ss) (length A + Suc k) st
            = winResolve_loop h (A @ map JSString ss) (length A + k) st1"
        using nth False step nb by simp
      then show ?thesis using Suc.IH [OF _ nd] k t Suc.prems(2) False step by simp
    qed
  qed
qed

lemma winResolve_reaches_non_string:
  assumes v: "\<forall>s. v \<noteq> JSString s" and nd: "\<not> win_done (win_walk ss)"
  shows "winResolve h (pre @ v # map JSString ss)
         = Inl (InvalidArgumentType (paths_name (int (length pre))))"
proof -
  let ?st0 = "\<lparr>resolvedDevice = [], resolvedTail = [], resolvedAbsolute = False\<rparr> :: wr_state"
  have n0: "\<not> win_done ?st0" by (simp add: win_done_def)
  have e: "pre @ v # map JSString ss = (pre @ [v]) @ map JSString ss" by simp
  have "winResolve_loop h ((pre @ [v]) @ map JSString ss) (length (pre @ [v]) + length ss) ?st0
        = winResolve_loop h ((pre @ [v]) @ map JSString ss) (length (pre @ [v])) (win_walk ss)"
    using winResolve_loop_walk [OF _ n0, of "length ss" ss h "pre @ [v]"] nd
    by (simp add: win_walk_def)
  also have "\<dots> = Inl (InvalidArgumentType (paths_name (int (length pre))))"
    using v by (simp add: validateString_non_string nth_append)
  finally show ?thesis unfolding winResolve_def e by simp
qed

lemma winResolve_stops_before:
  assumes "win_done (win_walk ss)"
  shows "winResolve h (A @ map JSString ss) = winResolve h (map JSString ss) \<and>
         (\<exists>r. winResolve h (map JSString ss) = Inr r)"
proof -
  let ?st0 = "\<lparr>resolvedDevice = [], resolvedTail = [], resolvedAbsolute = False\<rparr> :: wr_state"
  have n0: "\<not> win_done ?st0" by (simp add: win_done_def)
  have a: "winResolve_loop h (A @ map JSString ss) (length A + length ss) ?st0 = Inr (win_walk ss)"
    using winResolve_loop_walk [OF _ n0, of "length ss" ss h A] assms by (simp add: win_walk_def)
  have b: "winResolve_loop h (map JSString ss) (length ss) ?st0 = Inr (win_walk ss)"
    using winResolve_loop_walk [OF _ n0, of "length ss" ss h "[]"] assms by (simp add: win_walk_def)
  show ?thesis using a b by (simp add: winResolve_def Let_def)
qed

lemma posResolve_loop_absolute: "posResolve_loop h args k acc True = Inr (acc, True)"
  by (cases k) simp_all

lemma posResolve_loop_skip:
  "k \<le> length ss \<Longrightarrow> \<exists>s \<in> set (take k ss). pos_absolute s \<Longrightarrow>
   posResolve_loop h (A @ map JSString ss) (length A + k) acc False
     = posResolve_loop h (map JSString ss) k acc False"
proof (induction k arbitrary: acc)
  case 0
  then show ?case by simp
next
  case (Suc k)
  then have k: "k < length ss" by simp
  have nth: "(A @ map JSString ss) ! (length A + k) = JSString (ss ! k)"
    "map JSString ss ! k = JSString (ss ! k)"
    using k by (simp_all add: nth_append)
  have tk: "set (take (Suc k) ss) = insert (ss ! k) (set (take k ss))"
    using k by (simp add: take_Suc_conv_app_nth)
  show ?case
  proof (cases "pos_absolute (ss ! k)")
    case True
    then have ne: "ss ! k \<noteq> []" by (auto simp: pos_absolute_def charCodeAt_def)
    show ?thesis using True ne nth
      by (simp add: pos_absolute_def posResolve_loop_absolute)
  next
    case False
    then have ex: "\<exists>s \<in> set (take k ss). pos_absolute s" using Suc.prems(2) tk by auto
    show ?thesis using False nth Suc.IH [OF _ ex] k by (simp add: pos_absolute_def)
  qed
qed

lemma posResolve_strings: "posResolve h (map JSString paths) = Inr (posResolve_spec h paths)"
  using posResolve_loop_walk [of "length paths" paths h "[]"]
  by (simp add: posResolve_def posResolve_spec_def Let_def split: prod.splits)

lemma posResolve_stops_before:
  assumes "\<exists>s \<in> set ss. pos_absolute s"
  shows "posResolve h (A @ map JSString ss) = Inr (posResolve_spec h ss)"
proof -
  have "posResolve_loop h (A @ map JSString ss) (length A + length ss) [] False
        = posResolve_loop h (map JSString ss) (length ss) [] False"
    using posResolve_loop_skip [of "length ss" ss h A "[]"] assms by simp
  then have "posResolve h (A @ map JSString ss) = posResolve h (map JSString ss)"
    by (simp add: posResolve_def)
  then show ?thesis using posResolve_strings by simp
qed

lemma win_walk_from_not_absolute:
  "\<forall>s \<in> set ps. \<not> win_absolute s \<Longrightarrow> \<not> resolvedAbsolute st \<Longrightarrow>
   \<not> resolvedAbsolute (win_walk_from ps st)"
proof (induction ps arbitrary: st)
  case Nil
  then show ?case by simp
next
  case (Cons p ps)
  obtain st1 brk where step: "winResolve_step p st = (st1, brk)"
    by (cases "winResolve_step p st") auto
  have "\<not> resolvedAbsolute st1"
    using winResolve_step_not_absolute [OF _ Cons.prems(2) step] Cons.prems(1) by simp
  then show ?case using Cons step by (simp add: win_done_def)
qed

text \<open>
  C4, amended. A value that is not a string raises \<open>InvalidArgumentType\<close> in the path
  argument of \<open>normalize\<close>, \<open>isAbsolute\<close>, \<open>dirname\<close>, \<open>extname\<close>, \<open>parse\<close> and
  \<open>basename\<close>, in the suffix of \<open>basename\<close> unless it is \<open>undefined\<close>, in \<open>from\<close> and
  \<open>to\<close> of \<open>relative\<close>, and in any argument of \<open>join\<close> that only strings precede. In
  \<open>resolve\<close> it raises exactly when the backward walk reaches it. For an argument that
  only strings follow, POSIX \<open>resolve\<close> raises, naming its index, when none of the
  strings behind it is absolute; when one of them is, the walk has stopped there, nothing in
  front of it is read, and the result is that of the strings alone. Windows \<open>resolve\<close>
  raises, naming its index, when the walk over the strings behind it has not resolved both
  an absolute path and a device (so always when none of them is absolute); when it has,
  nothing in front is read and the result is that of the strings alone.
  \<open>toNamespacedPath\<close> of either engine raises nothing: it returns the value unchanged.
\<close>

theorem non_string_path_arguments:
  assumes v: "\<forall>s. v \<noteq> JSString s"
  shows
    "posNormalize v = Inl (InvalidArgumentType ''path'') \<and>
     winNormalize v = Inl (InvalidArgumentType ''path'') \<and>
     posIsAbsolute v = Inl (InvalidArgumentType ''path'') \<and>
     winIsAbsolute v = Inl (InvalidArgumentType ''path'') \<and>
     posDirname v = Inl (InvalidArgumentType ''path'') \<and>
     winDirname v = Inl (InvalidArgumentType ''path'') \<and>
     posExtname v = Inl (InvalidArgumentType ''path'') \<and>
     winExtname v = Inl (InvalidArgumentType ''path'') \<and>
     posParse v = Inl (InvalidArgumentType ''path'') \<and>
     winParse v = Inl (InvalidArgumentType ''path'') \<and>
     posBasename v JSUndefined = Inl (InvalidArgumentType ''path'') \<and>
     winBasename v JSUndefined = Inl (InvalidArgumentType ''path'') \<and>
     posBasename v (JSString sfx) = Inl (InvalidArgumentType ''path'') \<and>
     winBasename v (JSString sfx) = Inl (InvalidArgumentType ''path'') \<and>
     (v \<noteq> JSUndefined \<longrightarrow> posBasename q v = Inl (InvalidArgumentType ''ext'')) \<and>
     (v \<noteq> JSUndefined \<longrightarrow> winBasename q v = Inl (InvalidArgumentType ''ext'')) \<and>
     posRelative h v t = Inl (InvalidArgumentType ''from'') \<and>
     winRelative h v t = Inl (InvalidArgumentType ''from'') \<and>
     posRelative h (JSString f) v = Inl (InvalidArgumentType ''to'') \<and>
     winRelative h (JSString f) v = Inl (InvalidArgumentType ''to'') \<and>
     posJoin (map JSString ss @ v # rest) = Inl (InvalidArgumentType ''path'') \<and>
     winJoin (map JSString ss @ v # rest) = Inl (InvalidArgumentType ''path'') \<and>
     ((\<forall>s \<in> set ss. \<not> pos_absolute s) \<longrightarrow>
        posResolve h (pre @ v # map JSString ss)
          = Inl (InvalidArgumentType (paths_name (int (length pre))))) \<and>
     ((\<exists>s \<in> set ss. pos_absolute s) \<longrightarrow>
        posResolve h (pre @ v # map JSString ss) = Inr (posResolve_spec h ss)) \<and>
     ((\<forall>s \<in> set ss. \<not> win_absolute s) \<longrightarrow>
        winResolve h (pre @ v # map JSString ss)
          = Inl (InvalidArgumentType (paths_name (int (length pre))))) \<and>
     (\<not> win_done (win_walk ss) \<longrightarrow>
        winResolve h (pre @ v # map JSString ss)
          = Inl (InvalidArgumentType (paths_name (int (length pre))))) \<and>
     (win_done (win_walk ss) \<longrightarrow>
        winResolve h (pre @ v # map JSString ss) = winResolve h (map JSString ss) \<and>
        (\<exists>r. winResolve h (map JSString ss) = Inr r)) \<and>
     posToNamespacedPath v = Inr v \<and>
     winToNamespacedPath h v = Inr v"
proof -
  note vs = validateString_non_string [OF v]
  have n1: "posNormalize v = Inl (InvalidArgumentType ''path'')"
    by (simp add: posNormalize_def vs)
  have n2: "winNormalize v = Inl (InvalidArgumentType ''path'')"
    by (simp add: winNormalize_def vs)
  have a1: "posIsAbsolute v = Inl (InvalidArgumentType ''path'')"
    by (simp add: posIsAbsolute_def vs)
  have a2: "winIsAbsolute v = Inl (InvalidArgumentType ''path'')"
    by (simp add: winIsAbsolute_def vs)
  have d1: "posDirname v = Inl (InvalidArgumentType ''path'')"
    by (simp add: posDirname_def vs)
  have d2: "winDirname v = Inl (InvalidArgumentType ''path'')"
    by (simp add: winDirname_def vs)
  have e1: "posExtname v = Inl (InvalidArgumentType ''path'')"
    by (simp add: posExtname_def vs)
  have e2: "winExtname v = Inl (InvalidArgumentType ''path'')"
    by (simp add: winExtname_def vs)
  have p1: "posParse v = Inl (InvalidArgumentType ''path'')"
    by (simp add: posParse_def vs)
  have p2: "winParse v = Inl (InvalidArgumentType ''path'')"
    by (simp add: winParse_def vs)
  have b1: "posBasename v JSUndefined = Inl (InvalidArgumentType ''path'')"
    by (simp add: posBasename_def validate_suffix_def vs)
  have b2: "winBasename v JSUndefined = Inl (InvalidArgumentType ''path'')"
    by (simp add: winBasename_def validate_suffix_def vs)
  have b3: "posBasename v (JSString sfx) = Inl (InvalidArgumentType ''path'')"
    by (simp add: posBasename_def validate_suffix_def vs)
  have b4: "winBasename v (JSString sfx) = Inl (InvalidArgumentType ''path'')"
    by (simp add: winBasename_def validate_suffix_def vs)
  have b5: "v \<noteq> JSUndefined \<longrightarrow> posBasename q v = Inl (InvalidArgumentType ''ext'')"
    by (simp add: posBasename_def validate_suffix_def vs)
  have b6: "v \<noteq> JSUndefined \<longrightarrow> winBasename q v = Inl (InvalidArgumentType ''ext'')"
    by (simp add: winBasename_def validate_suffix_def vs)
  have r1: "posRelative h v t = Inl (InvalidArgumentType ''from'')"
    by (simp add: posRelative_def vs)
  have r2: "winRelative h v t = Inl (InvalidArgumentType ''from'')"
    by (simp add: winRelative_def vs)
  have r3: "posRelative h (JSString f) v = Inl (InvalidArgumentType ''to'')"
    by (simp add: posRelative_def vs)
  have r4: "winRelative h (JSString f) v = Inl (InvalidArgumentType ''to'')"
    by (simp add: winRelative_def vs)
  have j1: "posJoin (map JSString ss @ v # rest) = Inl (InvalidArgumentType ''path'')"
    by (simp add: posJoin_def posJoin_loop_non_string [OF v])
  have j2: "winJoin (map JSString ss @ v # rest) = Inl (InvalidArgumentType ''path'')"
    by (simp add: winJoin_def winJoin_loop_non_string [OF v])
  have s1: "(\<forall>s \<in> set ss. \<not> pos_absolute s) \<longrightarrow>
        posResolve h (pre @ v # map JSString ss)
          = Inl (InvalidArgumentType (paths_name (int (length pre))))"
  proof
    assume ss: "\<forall>s \<in> set ss. \<not> pos_absolute s"
    show "posResolve h (pre @ v # map JSString ss)
          = Inl (InvalidArgumentType (paths_name (int (length pre))))"
      using posResolve_loop_non_string [OF v ss, of "length ss" h pre "[]"]
      by (simp add: posResolve_def)
  qed
  have s2: "(\<forall>s \<in> set ss. \<not> win_absolute s) \<longrightarrow>
        winResolve h (pre @ v # map JSString ss)
          = Inl (InvalidArgumentType (paths_name (int (length pre))))"
  proof
    assume ss: "\<forall>s \<in> set ss. \<not> win_absolute s"
    show "winResolve h (pre @ v # map JSString ss)
          = Inl (InvalidArgumentType (paths_name (int (length pre))))"
      using winResolve_loop_non_string [OF v ss, of "length ss"
          "\<lparr>resolvedDevice = [], resolvedTail = [], resolvedAbsolute = False\<rparr>" h pre]
      by (simp add: winResolve_def)
  qed
  have s3: "(\<exists>s \<in> set ss. pos_absolute s) \<longrightarrow>
        posResolve h (pre @ v # map JSString ss) = Inr (posResolve_spec h ss)"
    using posResolve_stops_before [of ss h "pre @ [v]"] by simp
  have s4: "\<not> win_done (win_walk ss) \<longrightarrow>
        winResolve h (pre @ v # map JSString ss)
          = Inl (InvalidArgumentType (paths_name (int (length pre))))"
    using winResolve_reaches_non_string [OF v] by blast
  have s5: "win_done (win_walk ss) \<longrightarrow>
        winResolve h (pre @ v # map JSString ss) = winResolve h (map JSString ss) \<and>
        (\<exists>r. winResolve h (map JSString ss) = Inr r)"
    using winResolve_stops_before [of ss h "pre @ [v]"] by simp
  have t1: "posToNamespacedPath v = Inr v" by (simp add: posToNamespacedPath_def)
  have t2: "winToNamespacedPath h v = Inr v"
    using v by (cases v) (simp_all add: winToNamespacedPath_def)
  show ?thesis
    using n1 n2 a1 a2 d1 d2 e1 e2 p1 p2 b1 b2 b3 b4 b5 b6 r1 r2 r3 r4 j1 j2 s1 s3 s2 s4 s5 t1 t2
    by (intro conjI)
qed

theorem non_string_path_arguments_counterexample:
  "\<not> (\<exists>e. winToNamespacedPath windows_host (JSNumber 5) = Inl e) \<and>
   \<not> (\<exists>e. posToNamespacedPath (JSNumber 5) = Inl e) \<and>
   \<not> (\<exists>e. posResolve posix_host [JSNumber 5, JSString ''/a''] = Inl e) \<and>
   \<not> (\<exists>e. winResolve windows_host [JSNumber 5, JSString ''C:/a''] = Inl e)"
proof -
  have 1: "winToNamespacedPath windows_host (JSNumber 5) = Inr (JSNumber 5)" by code_simp
  have 2: "posToNamespacedPath (JSNumber 5) = Inr (JSNumber 5)" by code_simp
  have 3: "posResolve posix_host [JSNumber 5, JSString ''/a''] = Inr ''/a''" by code_simp
  have 4: "winResolve windows_host [JSNumber 5, JSString ''C:/a''] = Inr (''C:'' @ [BSL] @ ''a'')"
    by code_simp
  show ?thesis using 1 2 3 4 by simp
qed

theorem non_string_path_arguments_witness:
  "posNormalize (JSNumber 5) = Inl (InvalidArgumentType ''path'') \<and>
   winRelative windows_host (JSString ''a'') JSNull = Inl (InvalidArgumentType ''to'') \<and>
   posJoin [JSString ''a'', JSBoolean True, JSString ''b''] = Inl (InvalidArgumentType ''path'') \<and>
   posResolve posix_host [JSString ''/a'', JSUndefined, JSString ''b'', JSString ''c'']
     = Inl (InvalidArgumentType ''paths[1]'') \<and>
   winResolve windows_host [JSString ''C:/a'', JSUndefined, JSString ''b'', JSString ''c'']
     = Inl (InvalidArgumentType ''paths[1]'') \<and>
   winToNamespacedPath windows_host (JSNumber 5) = Inr (JSNumber 5) \<and>
   posResolve posix_host [JSNumber 5, JSString ''/a'', JSString ''b''] = Inr ''/a/b'' \<and>
   winResolve windows_host [JSNumber 5, JSString ([BSL] @ ''a'')]
     = Inl (InvalidArgumentType ''paths[0]'') \<and>
   winResolve browser_host [JSNumber 5, JSString ''C:b'', JSString ([BSL] @ ''a'')]
     = Inr (''C:'' @ [BSL] @ ''a'')"
proof -
  have v: "\<forall>s. JSNumber 5 \<noteq> JSString s" "\<forall>s. JSNull \<noteq> JSString s"
    "\<forall>s. JSBoolean True \<noteq> JSString s" "\<forall>s. JSUndefined \<noteq> JSString s" by simp_all
  have pa: "\<forall>s \<in> set [''b'', ''c'']. \<not> pos_absolute s" by (simp add: pos_absolute_def charCodeAt_def)
  have wa1: "\<not> win_absolute ''b''" by code_simp
  have wa2: "\<not> win_absolute ''c''" by code_simp
  have wa: "\<forall>s \<in> set [''b'', ''c'']. \<not> win_absolute s" using wa1 wa2 by simp
  have nm: "paths_name 1 = ''paths[1]''" by code_simp
  have nm0: "paths_name 0 = ''paths[0]''" by code_simp
  have 1: "posNormalize (JSNumber 5) = Inl (InvalidArgumentType ''path'')"
    using non_string_path_arguments [OF v(1)] by blast
  have 2: "winRelative windows_host (JSString ''a'') JSNull = Inl (InvalidArgumentType ''to'')"
    using non_string_path_arguments [OF v(2), where h = windows_host and f = "''a''"] by blast
  have 3: "posJoin (map JSString [''a''] @ JSBoolean True # [JSString ''b''])
      = Inl (InvalidArgumentType ''path'')"
    using non_string_path_arguments [OF v(3), where ss = "[''a'']" and rest = "[JSString ''b'']"]
    by blast
  have 4: "posResolve posix_host ([JSString ''/a''] @ JSUndefined # map JSString [''b'', ''c''])
     = Inl (InvalidArgumentType (paths_name (int (length [JSString ''/a'']))))"
    using non_string_path_arguments [OF v(4), where h = posix_host and ss = "[''b'', ''c'']"
        and pre = "[JSString ''/a'']"] pa
    by blast
  have 5: "winResolve windows_host ([JSString ''C:/a''] @ JSUndefined # map JSString [''b'', ''c''])
     = Inl (InvalidArgumentType (paths_name (int (length [JSString ''C:/a'']))))"
    using non_string_path_arguments [OF v(4), where h = windows_host and ss = "[''b'', ''c'']"
        and pre = "[JSString ''C:/a'']"] wa
    by blast
  have 6: "winToNamespacedPath windows_host (JSNumber 5) = Inr (JSNumber 5)"
    using non_string_path_arguments [OF v(1), where h = windows_host] by blast
  have pb: "\<exists>s \<in> set [''/a'', ''b'']. pos_absolute s"
    by (simp add: pos_absolute_def charCodeAt_def)
  have sp: "posResolve_spec posix_host [''/a'', ''b''] = ''/a/b''" by code_simp
  have "posResolve posix_host ([] @ JSNumber 5 # map JSString [''/a'', ''b''])
      = Inr (posResolve_spec posix_host [''/a'', ''b''])"
    using non_string_path_arguments [OF v(1), where h = posix_host and ss = "[''/a'', ''b'']"
        and pre = "[]"] pb
    by blast
  then have 7: "posResolve posix_host ([] @ JSNumber 5 # map JSString [''/a'', ''b'']) = Inr ''/a/b''"
    using sp by simp
  have nd: "\<not> win_done (win_walk [[BSL] @ ''a''])" by code_simp
  have 8: "winResolve windows_host ([] @ JSNumber 5 # map JSString [[BSL] @ ''a''])
     = Inl (InvalidArgumentType (paths_name (int (length ([] :: js_value list)))))"
    using non_string_path_arguments [OF v(1), where h = windows_host and ss = "[[BSL] @ ''a'']"
        and pre = "[]"] nd
    by blast
  have dn: "win_done (win_walk [''C:b'', [BSL] @ ''a''])" by code_simp
  have rs: "winResolve browser_host (map JSString [''C:b'', [BSL] @ ''a''])
     = Inr (''C:'' @ [BSL] @ ''a'')" by code_simp
  have "winResolve browser_host ([] @ JSNumber 5 # map JSString [''C:b'', [BSL] @ ''a''])
     = winResolve browser_host (map JSString [''C:b'', [BSL] @ ''a''])"
    using non_string_path_arguments [OF v(1), where h = browser_host
        and ss = "[''C:b'', [BSL] @ ''a'']" and pre = "[]"] dn
    by blast
  then have 9: "winResolve browser_host ([] @ JSNumber 5 # map JSString [''C:b'', [BSL] @ ''a''])
     = Inr (''C:'' @ [BSL] @ ''a'')"
    using rs by simp
  show ?thesis using 1 2 3 4 5 6 7 8 9 nm nm0 by simp
qed

subsection \<open>relative on segments\<close>





end
